theory Spec2Isabelle
  imports Main "HOL-Library.AList" "HOL-Library.Multiset"
begin

section \<open>Data model of \<open>scripts/mcp-server.ts\<close>\<close>

text \<open>
  The interfaces of the server, as records. A \<open>Record<string, T>\<close> of the source is an
  association list in insertion order (the order \<open>Object.keys\<close> and \<open>Object.entries\<close>
  report for keys that are not array indices); an optional field is an \<open>option\<close>.
  Free-form \<open>config\<close> objects are values of \<open>json\<close>.

  The manifest is \<open>yaml.parse(content) as IntegrationManifest\<close>, a cast that checks
  nothing, so the entries of a matrix dimension are the scalars the YAML document holds:
  \<open>[14, 15, 16]\<close> parses to numbers and \<open>["14", "15", "16"]\<close> to strings, whatever
  the declared \<open>Record<string, string[]>\<close> says. \<open>scalar\<close> has the strings, the integer
  numbers, the booleans and \<open>null\<close>; numbers with a fraction and nested collections as
  matrix entries are not covered.
\<close>

datatype scalar = Str string | Num int | Bool bool | Null

datatype json =
    JStr string
  | JNum int
  | JArr "json list"
  | JObj "(string \<times> json) list"

record Healthcheck =
  hc_command :: string
  hc_interval :: "string option"
  hc_timeout :: "string option"
  hc_retries :: "nat option"

record Resources =
  memory :: "string option"
  cpu :: "nat option"
  storage :: "string option"

record ServiceConfig =
  template :: string
  config :: "(string \<times> json) list option"
  depends_on :: "string list option"
  healthcheck :: "Healthcheck option"
  resources :: "Resources option"

record TestBranch =
  tb_name :: string
  tb_env :: "(string \<times> string) list option"
  before :: "string option"
  after :: "string option"

record TestSuite =
  command :: string
  parallel :: "bool option"
  ts_depends_on :: "string list option"
  branches :: "TestBranch list option"
  ts_env :: "(string \<times> string) list option"

record Checkpoint =
  cp_name :: string
  cp_after :: string
  cp_description :: "string option"

record DeployResources =
  dr_memory :: "string option"
  dr_vcpu :: "nat option"

record Scaling =
  sc_min :: "nat option"
  sc_max :: "nat option"
  target_cpu :: "nat option"

record AutoDeploy =
  ad_branch :: string
  ad_on :: string

record DeployConfig =
  target :: string
  domain :: "string option"
  dc_resources :: "DeployResources option"
  scaling :: "Scaling option"
  auto_deploy :: "AutoDeploy option"

record VmConfig =
  memory_mib :: nat
  vcpu :: nat
  storage_mib :: nat

record IntegrationManifest =
  name :: string
  version :: string
  description :: "string option"
  vm :: VmConfig
  services :: "(string \<times> ServiceConfig) list"
  tests :: "(string \<times> TestSuite) list option"
  checkpoints :: "Checkpoint list option"
  matrix :: "(string \<times> scalar list) list option"
  deploy :: "(string \<times> DeployConfig) list option"

datatype status = Passed | Failed | Skipped | Error

record TestResult =
  suite :: string
  branch :: string
  tr_status :: status
  duration_ms :: int
  tr_output :: "string option"
  tr_error :: "string option"

section \<open>Asynchronous handlers as resumptions\<close>

text \<open>
  Every tool handler is an \<open>async\<close> function whose suspension points are the awaited
  calls of \<open>execAsync\<close> (the promisified \<open>child_process.exec\<close>) and the file
  operations of \<open>fs/promises\<close>. A handler is modelled as a resumption: a tree whose
  nodes are these calls, together with the reads of \<open>Date.now()\<close> (synchronous in the
  source, a node here because their answer comes from outside), and whose continuations
  take the call's answer. \<open>Throw\<close> is a rejected promise (a thrown exception).

  \<open>Exec\<close> carries the call site as a tag: \<open>ViaExecVers\<close> for commands sent through
  \<open>execVers\<close>, \<open>Direct\<close> for commands run by \<open>execAsync\<close> directly (hooks and test
  commands). \<open>Mutate\<close> is an assignment to a field of the manifest object that
  \<open>readManifest\<close> returned to the handler.
\<close>

record exec_output =
  stdout :: string
  stderr :: string

datatype resp = Resolved exec_output | Rejected string

datatype origin = ViaExecVers | Direct

datatype event =
    EvExec origin string resp
  | EvNow nat
  | EvReadManifest
  | EvWriteManifest
  | EvMkdir string
  | EvWriteFile string

datatype 'a prog =
    Return 'a
  | Throw string
  | Exec origin string "resp \<Rightarrow> 'a prog"
  | Now "nat \<Rightarrow> 'a prog"
  | ReadManifest "IntegrationManifest option \<Rightarrow> 'a prog"
  | WriteManifest IntegrationManifest "'a prog"
  | Mkdir string "'a prog"
  | WriteFile string string "'a prog"
  | Mutate "IntegrationManifest \<Rightarrow> IntegrationManifest" "'a prog"

text \<open>
  The state a handler runs in: the manifest file \<open>vers-integration.yaml\<close> (its parsed
  content; \<open>None\<close> when the file is missing or does not parse, which is when
  \<open>readManifest\<close> returns \<open>null\<close>), the other files and directories the server
  writes, the manifest object held by the running handler, and the trace of calls made
  so far.
\<close>

record state =
  disk_manifest :: "IntegrationManifest option"
  files :: "string \<rightharpoonup> string"
  dirs :: "string set"
  heap_manifest :: "IntegrationManifest option"
  trace :: "event list"

text \<open>
  The outside world: what a shell command answers and what the clock shows, each as a
  function of everything that has happened so far.
\<close>

record world =
  respond :: "event list \<Rightarrow> string \<Rightarrow> resp"
  clock :: "event list \<Rightarrow> nat"

definition emit :: "event \<Rightarrow> state \<Rightarrow> state" where
  "emit e st = st\<lparr>trace := trace st @ [e]\<rparr>"

text \<open>Running a handler to completion; \<open>Inl\<close> is the error of a rejected promise.\<close>

primrec run :: "world \<Rightarrow> 'a prog \<Rightarrow> state \<Rightarrow> state \<times> (string + 'a)" where
  "run w (Return v) = (\<lambda>st. (st, Inr v))"
| "run w (Throw e) = (\<lambda>st. (st, Inl e))"
| "run w (Exec og c k) =
     (\<lambda>st. let r = respond w (trace st) c in run w (k r) (emit (EvExec og c r) st))"
| "run w (Now k) =
     (\<lambda>st. let t = clock w (trace st) in run w (k t) (emit (EvNow t) st))"
| "run w (ReadManifest k) =
     (\<lambda>st. run w (k (disk_manifest st))
              (emit EvReadManifest (st\<lparr>heap_manifest := disk_manifest st\<rparr>)))"
| "run w (WriteManifest m p) =
     (\<lambda>st. run w p (emit EvWriteManifest (st\<lparr>disk_manifest := Some m\<rparr>)))"
| "run w (Mkdir d p) =
     (\<lambda>st. run w p (emit (EvMkdir d) (st\<lparr>dirs := insert d (dirs st)\<rparr>)))"
| "run w (WriteFile f c p) =
     (\<lambda>st. run w p (emit (EvWriteFile f) (st\<lparr>files := (files st)(f \<mapsto> c)\<rparr>)))"
| "run w (Mutate f p) =
     (\<lambda>st. run w p (st\<lparr>heap_manifest := map_option f (heap_manifest st)\<rparr>))"

text \<open>Sequencing (\<open>await\<close> of an inner async function) and \<open>try\<close>/\<open>catch\<close>.\<close>

primrec bind :: "'a prog \<Rightarrow> ('a \<Rightarrow> 'b prog) \<Rightarrow> 'b prog" where
  "bind (Return v) f = f v"
| "bind (Throw e) f = Throw e"
| "bind (Exec og c k) f = Exec og c (\<lambda>r. bind (k r) f)"
| "bind (Now k) f = Now (\<lambda>t. bind (k t) f)"
| "bind (ReadManifest k) f = ReadManifest (\<lambda>m. bind (k m) f)"
| "bind (WriteManifest m p) f = WriteManifest m (bind p f)"
| "bind (Mkdir d p) f = Mkdir d (bind p f)"
| "bind (WriteFile fl c p) f = WriteFile fl c (bind p f)"
| "bind (Mutate g p) f = Mutate g (bind p f)"

primrec try_catch :: "'a prog \<Rightarrow> (string \<Rightarrow> 'a prog) \<Rightarrow> 'a prog" where
  "try_catch (Return v) h = Return v"
| "try_catch (Throw e) h = h e"
| "try_catch (Exec og c k) h = Exec og c (\<lambda>r. try_catch (k r) h)"
| "try_catch (Now k) h = Now (\<lambda>t. try_catch (k t) h)"
| "try_catch (ReadManifest k) h = ReadManifest (\<lambda>m. try_catch (k m) h)"
| "try_catch (WriteManifest m p) h = WriteManifest m (try_catch p h)"
| "try_catch (Mkdir d p) h = Mkdir d (try_catch p h)"
| "try_catch (WriteFile fl c p) h = WriteFile fl c (try_catch p h)"
| "try_catch (Mutate g p) h = Mutate g (try_catch p h)"

subsection \<open>Utility functions of the server\<close>

text \<open>
  \<open>execAsync(cmd)\<close> resolves with the command's output or rejects with an error whose
  \<open>message\<close> is the string of \<open>Rejected\<close>. \<open>execVers\<close> runs \<open>vers <command>\<close>
  and turns a rejection into \<open>{stdout: "", stderr: error.message}\<close>; it never throws.
\<close>

definition execAsync :: "string \<Rightarrow> (exec_output \<Rightarrow> 'a prog) \<Rightarrow> 'a prog" where
  "execAsync c k = Exec Direct c (\<lambda>r. case r of Resolved out \<Rightarrow> k out | Rejected msg \<Rightarrow> Throw msg)"

definition caught :: "resp \<Rightarrow> exec_output" where
  "caught r = (case r of Resolved out \<Rightarrow> out | Rejected msg \<Rightarrow> \<lparr>stdout = [], stderr = msg\<rparr>)"

definition execVers :: "string \<Rightarrow> (exec_output \<Rightarrow> 'a prog) \<Rightarrow> 'a prog" where
  "execVers c k = Exec ViaExecVers (''vers '' @ c) (\<lambda>r. k (caught r))"

text \<open>JavaScript's \<open>a || b\<close> on strings: the empty string is falsy.\<close>

definition or_str :: "string \<Rightarrow> string \<Rightarrow> string" where
  "or_str a b = (if a \<noteq> '''' then a else b)"

definition or_opt_str :: "string option \<Rightarrow> string \<Rightarrow> string" where
  "or_opt_str a b = (case a of None \<Rightarrow> b | Some s \<Rightarrow> or_str s b)"

text \<open>Decimal rendering of a number inside a template literal.\<close>

definition digit :: "nat \<Rightarrow> char" where
  "digit d = ''0123456789'' ! d"

function show_nat :: "nat \<Rightarrow> string" where
  "show_nat n = (if n < 10 then [digit n] else show_nat (n div 10) @ [digit (n mod 10)])"
  by pat_completeness auto
termination
  by (relation "measure id") auto

definition show_int :: "int \<Rightarrow> string" where
  "show_int i = (if i < 0 then ''-'' @ show_nat (nat (- i)) else show_nat (nat i))"

section \<open>Chaos injection: \<open>chaos_inject\<close>\<close>

text \<open>
  The \<open>action\<close> argument is validated by the schema
  \<open>z.enum(["kill", "pause", "network-isolate", "cpu-stress", "memory-stress", "disk-fill"])\<close>,
  so the \<open>default\<close> branch of the \<open>switch\<close> is unreachable and the six
  constructors are all the inputs. \<open>intensity\<close> is a \<open>z.number()\<close>; the model covers
  its integer values.
\<close>

datatype action = Kill | Pause | NetworkIsolate | CpuStress | MemoryStress | DiskFill

text \<open>\<open>intensity || d\<close>: \<open>undefined\<close> and \<open>0\<close> are falsy.\<close>

definition or_num :: "int option \<Rightarrow> int \<Rightarrow> int" where
  "or_num i d = (case i of None \<Rightarrow> d | Some n \<Rightarrow> if n = 0 then d else n)"

fun chaosCommand :: "string \<Rightarrow> action \<Rightarrow> string option \<Rightarrow> int option \<Rightarrow> string" where
  "chaosCommand service Kill duration intensity = ''service stop '' @ service @ '' --force''"
| "chaosCommand service Pause duration intensity = ''service pause '' @ service"
| "chaosCommand service NetworkIsolate duration intensity =
     ''execute --service '' @ service @
     '' \"iptables -A INPUT -j DROP && iptables -A OUTPUT -j DROP\"''"
| "chaosCommand service CpuStress duration intensity =
     (let cpuIntensity = or_num intensity 80 in
      ''execute --service '' @ service @ '' \"stress-ng --cpu 2 --cpu-load '' @
      show_int cpuIntensity @ '' --timeout '' @ or_opt_str duration ''30s'' @ ''\"'')"
| "chaosCommand service MemoryStress duration intensity =
     (let memIntensity = or_num intensity 80 in
      ''execute --service '' @ service @ '' \"stress-ng --vm 1 --vm-bytes '' @
      show_int memIntensity @ ''% --timeout '' @ or_opt_str duration ''30s'' @ ''\"'')"
| "chaosCommand service DiskFill duration intensity =
     (let diskPercent = or_num intensity 95 in
      ''execute --service '' @ service @
      '' \"fallocate -l $(df / | awk 'NR==2 {print int($4*'' @
      show_int diskPercent @ ''/100)}')K /tmp/fill\"'')"

record ChaosResult =
  cr_status :: string
  cr_service :: string
  cr_action :: action
  cr_duration :: string
  rollback_checkpoint :: string
  cr_output :: string

definition chaos_inject ::
  "string \<Rightarrow> action \<Rightarrow> string option \<Rightarrow> int option \<Rightarrow> ChaosResult prog" where
  "chaos_inject service act duration intensity =
     Now (\<lambda>ts.
       let checkpointName = ''pre-chaos-'' @ service @ ''-'' @ show_nat ts in
       execVers (''commit --tag \"'' @ checkpointName @ ''\"'') (\<lambda>_.
       execVers (chaosCommand service act duration intensity) (\<lambda>out.
       Return \<lparr>cr_status = ''injected'', cr_service = service, cr_action = act,
               cr_duration = or_opt_str duration ''permanent'',
               rollback_checkpoint = checkpointName,
               cr_output = or_str (stdout out) (stderr out)\<rparr>)))"

section \<open>Project initialisation: \<open>integration_init\<close>\<close>

text \<open>
  A tool answers with one text item: either a plain message or the JSON rendering
  (\<open>formatOutput\<close>) of an object. The model keeps the object.
\<close>

datatype 'a tool_result = Text string | Json 'a

datatype init_template = Blank | SaasStarter | Microservices | DataPipeline | Ecommerce

fun template_name :: "init_template \<Rightarrow> string" where
  "template_name Blank = ''blank''"
| "template_name SaasStarter = ''saas-starter''"
| "template_name Microservices = ''microservices''"
| "template_name DataPipeline = ''data-pipeline''"
| "template_name Ecommerce = ''ecommerce''"

text \<open>An object literal \<open>{ template: t, config: c }\<close>.\<close>

definition mk_service :: "string \<Rightarrow> (string \<times> json) list option \<Rightarrow> ServiceConfig" where
  "mk_service t c = \<lparr>template = t, config = c, depends_on = None, healthcheck = None,
              resources = None\<rparr>"

definition test_suite :: "string \<Rightarrow> bool option \<Rightarrow> string list option \<Rightarrow> TestSuite" where
  "test_suite c p d = \<lparr>command = c, parallel = p, ts_depends_on = d, branches = None,
                       ts_env = None\<rparr>"

definition strs :: "string list \<Rightarrow> json" where
  "strs xs = JArr (map JStr xs)"

definition base_manifest :: "string \<Rightarrow> IntegrationManifest" where
  "base_manifest nm =
     \<lparr>name = nm, version = ''1.0.0'',
      description = Some (''Integration testing project: '' @ nm),
      vm = \<lparr>memory_mib = 2048, vcpu = 2, storage_mib = 8000\<rparr>,
      services = [], tests = Some [], checkpoints = Some [], matrix = None,
      deploy = Some
        [(''staging'', \<lparr>target = ''vers.sh/hosted'', domain = Some (nm @ ''-staging.vers.sh''),
                        dc_resources = None, scaling = None, auto_deploy = None\<rparr>),
         (''production'', \<lparr>target = ''vers.sh/hosted'', domain = Some (nm @ ''.vers.sh''),
                           dc_resources = None, scaling = None, auto_deploy = None\<rparr>)]\<rparr>"

fun apply_template :: "init_template \<Rightarrow> IntegrationManifest \<Rightarrow> IntegrationManifest" where
  "apply_template SaasStarter m =
     m\<lparr>services :=
         [(''postgres'', mk_service ''postgres@15''
             (Some [(''databases'', strs [''app'', ''analytics'']),
                    (''extensions'', strs [''uuid-ossp'', ''pg_trgm''])])),
          (''redis'', mk_service ''redis@7'' (Some [(''maxmemory'', JStr ''256mb'')])),
          (''stripe'', mk_service ''stripe-mock''
             (Some [(''webhook_endpoint'', JStr ''http://app:3000/webhooks/stripe'')])),
          (''oauth'', mk_service ''oauth-mock'' (Some [(''providers'', strs [''google'', ''github''])])),
          (''smtp'', mk_service ''mailhog'' None)],
       tests := Some
         [(''unit'', test_suite ''npm run test:unit'' (Some True) None),
          (''integration'', test_suite ''npm run test:integration'' None
             (Some [''postgres'', ''redis''])),
          (''e2e'', test_suite ''npm run test:e2e'' None
             (Some [''postgres'', ''redis'', ''stripe'']))]\<rparr>"
| "apply_template Microservices m =
     m\<lparr>vm := (vm m)\<lparr>memory_mib := 4096\<rparr>,
       services :=
         [(''kafka'', mk_service ''kafka@3''
             (Some [(''topics'', JArr
                [JObj [(''name'', JStr ''events''), (''partitions'', JNum 3)],
                 JObj [(''name'', JStr ''notifications''), (''partitions'', JNum 1)]])])),
          (''postgres'', mk_service ''postgres@15'' (Some [(''databases'', strs [''users'', ''orders''])])),
          (''mongodb'', mk_service ''mongodb@7'' (Some [(''databases'', strs [''analytics''])])),
          (''redis'', mk_service ''redis@7'' None)]\<rparr>"
| "apply_template DataPipeline m =
     m\<lparr>vm := (vm m)\<lparr>memory_mib := 4096\<rparr>,
       services :=
         [(''postgres-source'', mk_service ''postgres@15'' (Some [(''databases'', strs [''source_db''])])),
          (''postgres-warehouse'', mk_service ''postgres@15''
             (Some [(''databases'', strs [''warehouse'']),
                    (''extensions'', strs [''pg_trgm'', ''btree_gin''])])),
          (''elasticsearch'', mk_service ''elasticsearch@8'' None),
          (''redis'', mk_service ''redis@7'' (Some [(''maxmemory'', JStr ''1gb'')]))]\<rparr>"
| "apply_template Ecommerce m =
     m\<lparr>services :=
         [(''postgres'', mk_service ''postgres@15''
             (Some [(''databases'', strs [''ecommerce'', ''inventory'', ''analytics'']),
                    (''extensions'', strs [''uuid-ossp''])])),
          (''redis'', mk_service ''redis@7'' (Some [(''maxmemory'', JStr ''512mb'')])),
          (''elasticsearch'', mk_service ''elasticsearch@8''
             (Some [(''indices'', strs [''products'', ''orders''])])),
          (''stripe'', mk_service ''stripe-mock'' None),
          (''s3'', mk_service ''localstack''
             (Some [(''services'', strs [''s3'']), (''buckets'', strs [''uploads'', ''assets''])]))]\<rparr>"
| "apply_template Blank m = m"

definition nl :: string where
  "nl = [CHR 0x0A]"

definition versToml :: "IntegrationManifest \<Rightarrow> string" where
  "versToml m =
     ''[vm]'' @ nl @
     ''memory_mib = '' @ show_nat (memory_mib (vm m)) @ nl @
     ''vcpu = '' @ show_nat (vcpu (vm m)) @ nl @
     nl @
     ''[storage]'' @ nl @
     ''cluster_mib = '' @ show_nat (storage_mib (vm m)) @ nl @
     ''vm_mib = '' @ show_nat (storage_mib (vm m) div 2) @ nl"

record InitResult =
  ir_status :: string
  project :: string
  ir_template :: string
  ir_services :: "string list"
  next_steps :: "string list"

definition integration_init ::
  "string \<Rightarrow> init_template option \<Rightarrow> InitResult tool_result prog" where
  "integration_init nm tmpl =
     (let templateName = (case tmpl of None \<Rightarrow> Blank | Some t \<Rightarrow> t) in
      ReadManifest (\<lambda>existing.
        case existing of
          Some ex \<Rightarrow> Return (Text (''Project already initialized: '' @ name ex))
        | None \<Rightarrow>
            (let manifest = apply_template templateName (base_manifest nm) in
             WriteManifest manifest
               (Mkdir ''tests''
                 (Mkdir ''scripts''
                   (WriteFile ''vers.toml'' (versToml manifest)
                     (Return (Json
                        \<lparr>ir_status = ''initialized'', project = nm,
                         ir_template = template_name templateName,
                         ir_services = map fst (services manifest),
                         next_steps =
                           [''Run 'vers build' to build the VM image'',
                            ''Run '/vers-integration-up' to start services'',
                            ''Run '/vers-integration-test' to run tests'']\<rparr>))))))))"

section \<open>Parallel execution: \<open>Promise.all\<close>\<close>

text \<open>
  One step of a handler: the call it is suspended at is made and answered, and the
  handler resumes up to its next call. A finished handler does not move.
\<close>

fun step :: "world \<Rightarrow> 'a prog \<Rightarrow> state \<Rightarrow> 'a prog \<times> state" where
  "step w (Return v) st = (Return v, st)"
| "step w (Throw e) st = (Throw e, st)"
| "step w (Exec og c k) st =
     (let r = respond w (trace st) c in (k r, emit (EvExec og c r) st))"
| "step w (Now k) st = (let t = clock w (trace st) in (k t, emit (EvNow t) st))"
| "step w (ReadManifest k) st =
     (k (disk_manifest st), emit EvReadManifest (st\<lparr>heap_manifest := disk_manifest st\<rparr>))"
| "step w (WriteManifest m p) st = (p, emit EvWriteManifest (st\<lparr>disk_manifest := Some m\<rparr>))"
| "step w (Mkdir d p) st = (p, emit (EvMkdir d) (st\<lparr>dirs := insert d (dirs st)\<rparr>))"
| "step w (WriteFile f c p) st = (p, emit (EvWriteFile f) (st\<lparr>files := (files st)(f \<mapsto> c)\<rparr>))"
| "step w (Mutate f p) st = (p, st\<lparr>heap_manifest := map_option f (heap_manifest st)\<rparr>)"

text \<open>
  \<open>Promise.all(tasks)\<close>. The tasks were all started by the \<open>map\<close> that built the
  array; from then on the order in which their awaited calls complete is decided by
  the outside world. The schedule \<open>sched\<close> is that order: each entry names the task
  that takes its next step. A step is one node of the task, so the clock reads and the
  assignments between two awaited calls are steps of their own and the schedules cover
  every order the event loop can produce. When the schedule is used up, the tasks that
  are still running finish one after the other. \<open>Promise.all\<close> rejects with the error of
  the task that rejected first, and resolves with all results, in task order, when no
  task rejects; the other tasks keep running after a rejection, so their calls are part
  of the trace.
\<close>

fun thrown :: "'a prog \<Rightarrow> string option" where
  "thrown (Throw e) = Some e"
| "thrown _ = None"

definition first_error :: "string option \<Rightarrow> string option \<Rightarrow> string option" where
  "first_error err new = (case err of Some e \<Rightarrow> Some e | None \<Rightarrow> new)"

fun interleave ::
  "world \<Rightarrow> nat list \<Rightarrow> 'a prog list \<Rightarrow> state \<Rightarrow> string option \<Rightarrow>
   'a prog list \<times> state \<times> string option" where
  "interleave w [] ps st err = (ps, st, err)"
| "interleave w (i # sched) ps st err =
     (if ps = [] then (ps, st, err)
      else
        (let j = i mod length ps;
             (p', st') = step w (ps ! j) st
         in interleave w sched (ps[j := p']) st' (first_error err (thrown p'))))"

fun drain ::
  "world \<Rightarrow> 'a prog list \<Rightarrow> state \<Rightarrow> string option \<Rightarrow>
   (string + 'a) list \<times> state \<times> string option" where
  "drain w [] st err = ([], st, err)"
| "drain w (p # ps) st err =
     (let (st', r) = run w p st;
          (rs, st'', err') =
            drain w ps st' (first_error err (case r of Inl e \<Rightarrow> Some e | Inr _ \<Rightarrow> None))
      in (r # rs, st'', err'))"

definition promise_all ::
  "world \<Rightarrow> nat list \<Rightarrow> 'a prog list \<Rightarrow> state \<Rightarrow> state \<times> (string + 'a list)" where
  "promise_all w sched tasks st =
     (let err0 = fold (\<lambda>p err. first_error err (thrown p)) tasks None;
          (ps, st1, err1) = interleave w sched tasks st err0;
          (rs, st2, err2) = drain w ps st1 err1
      in (st2, case err2 of
                 Some e \<Rightarrow> Inl e
               | None \<Rightarrow> Inr (concat (map (\<lambda>r. case r of Inl _ \<Rightarrow> [] | Inr v \<Rightarrow> [v]) rs))))"

text \<open>
  A handler that may end in one \<open>await Promise.all(...)\<close>: it either finishes with
  its answer, or hands over the tasks together with what it does with their results.
\<close>

datatype ('t, 'a) fork = Done 'a | All "'t prog list" "'t list \<Rightarrow> 'a prog"

definition run_handler ::
  "world \<Rightarrow> nat list \<Rightarrow> ('t, 'a) fork prog \<Rightarrow> state \<Rightarrow> state \<times> (string + 'a)" where
  "run_handler w sched h st =
     (case run w h st of
        (st1, Inl e) \<Rightarrow> (st1, Inl e)
      | (st1, Inr (Done a)) \<Rightarrow> (st1, Inr a)
      | (st1, Inr (All tasks k)) \<Rightarrow>
          (case promise_all w sched tasks st1 of
             (st2, Inl e) \<Rightarrow> (st2, Inl e)
           | (st2, Inr vs) \<Rightarrow> run w (k vs) st2))"

section \<open>Reasoning about resumptions\<close>

text \<open>
  \<open>wp w p Q\<close>: whatever the history is when each of its calls is answered by the world
  \<open>w\<close>, the handler \<open>p\<close> ends, and the events it emitted together with its outcome
  satisfy \<open>Q\<close>. This is what holds of a task in every interleaving with other tasks.
\<close>

type_synonym 'a post = "event list \<Rightarrow> string + 'a \<Rightarrow> bool"

primrec wp :: "world \<Rightarrow> 'a prog \<Rightarrow> 'a post \<Rightarrow> bool" where
  "wp w (Return v) = (\<lambda>Q. Q [] (Inr v))"
| "wp w (Throw e) = (\<lambda>Q. Q [] (Inl e))"
| "wp w (Exec og c k) =
     (\<lambda>Q. \<forall>l. wp w (k (respond w l c)) (\<lambda>evs. Q (EvExec og c (respond w l c) # evs)))"
| "wp w (Now k) = (\<lambda>Q. \<forall>l. wp w (k (clock w l)) (\<lambda>evs. Q (EvNow (clock w l) # evs)))"
| "wp w (ReadManifest k) = (\<lambda>Q. \<forall>m. wp w (k m) (\<lambda>evs. Q (EvReadManifest # evs)))"
| "wp w (WriteManifest m p) = (\<lambda>Q. wp w p (\<lambda>evs. Q (EvWriteManifest # evs)))"
| "wp w (Mkdir d p) = (\<lambda>Q. wp w p (\<lambda>evs. Q (EvMkdir d # evs)))"
| "wp w (WriteFile f c p) = (\<lambda>Q. wp w p (\<lambda>evs. Q (EvWriteFile f # evs)))"
| "wp w (Mutate f p) = (\<lambda>Q. wp w p Q)"

text \<open>A postcondition, for a task that has already emitted \<open>acc\<close>.\<close>

definition shifted :: "'a post \<Rightarrow> event list \<Rightarrow> 'a post" where
  "shifted Q acc = (\<lambda>evs. Q (acc @ evs))"

text \<open>
  What \<open>Promise.all\<close> knows about rejections while the tasks run: no error is recorded
  exactly when no task has thrown, and a recorded error is the error of a thrown task.
\<close>

definition err_inv :: "'a prog list \<Rightarrow> string option \<Rightarrow> bool" where
  "err_inv ps err \<longleftrightarrow>
     (err = None \<longrightarrow> (\<forall>p \<in> set ps. thrown p = None)) \<and>
     (\<forall>e. err = Some e \<longrightarrow> Throw e \<in> set ps)"

text \<open>JavaScript helpers: \<open>Array.prototype.join\<close>, \<open>String.prototype.includes\<close>,
  truthiness of an optional string and of an optional boolean.\<close>

fun join :: "string \<Rightarrow> string list \<Rightarrow> string" where
  "join sep [] = []"
| "join sep [x] = x"
| "join sep (x # y # ys) = x @ sep @ join sep (y # ys)"

fun includes_str :: "string \<Rightarrow> string \<Rightarrow> bool" where
  "includes_str [] sub = (sub = [])"
| "includes_str (c # cs) sub = (take (length sub) (c # cs) = sub \<or> includes_str cs sub)"

definition truthy :: "string option \<Rightarrow> bool" where
  "truthy s = (case s of None \<Rightarrow> False | Some x \<Rightarrow> x \<noteq> [])"

definition flag :: "bool option \<Rightarrow> bool" where
  "flag b = (case b of None \<Rightarrow> False | Some x \<Rightarrow> x)"

section \<open>Starting services: \<open>integration_up\<close>\<close>

datatype detail =
    BuildStep string
  | Health string string
  | CheckpointCreated string

record UpResult =
  up_status :: string
  up_started :: "string list"
  up_failed :: "string list"
  up_details :: "detail list"

text \<open>The test \<open>!stderr || stderr.includes("started")\<close> on the answer of a start command.\<close>

definition start_ok :: "exec_output \<Rightarrow> bool" where
  "start_ok out = (stderr out = [] \<or> includes_str (stderr out) ''started'')"

text \<open>The inner loop \<open>for (const dep of unmetDeps)\<close>; \<open>started\<close> is the array it pushes to.\<close>

fun start_deps :: "string list \<Rightarrow> string list \<Rightarrow> string list prog" where
  "start_deps [] started = Return started"
| "start_deps (dep # rest) started =
     execVers (''service start '' @ dep) (\<lambda>out.
       start_deps rest (if start_ok out then started @ [dep] else started))"

text \<open>The loop \<open>for (const svc of servicesToStart)\<close> with its two arrays.\<close>

fun start_services ::
  "IntegrationManifest \<Rightarrow> string list \<Rightarrow> string list \<times> string list \<Rightarrow>
   (string list \<times> string list) prog" where
  "start_services manifest [] (started, failed) = Return (started, failed)"
| "start_services manifest (svc # rest) (started, failed) =
     (case map_of (services manifest) svc of
        None \<Rightarrow> start_services manifest rest (started, failed @ [svc])
      | Some svcConfig \<Rightarrow>
          (let deps = (case depends_on svcConfig of None \<Rightarrow> [] | Some ds \<Rightarrow> ds);
               unmetDeps = filter (\<lambda>d. d \<notin> set started) deps
           in bind (if unmetDeps \<noteq> [] then start_deps unmetDeps started else Return started)
                (\<lambda>started.
                   execVers (''service start '' @ svc) (\<lambda>out.
                     if start_ok out
                     then start_services manifest rest (started @ [svc], failed)
                     else start_services manifest rest (started, failed @ [svc])))))"

fun health_checks :: "string list \<Rightarrow> detail list \<Rightarrow> detail list prog" where
  "health_checks [] results = Return results"
| "health_checks (svc # rest) results =
     execVers (''service health '' @ svc @ '' --wait'') (\<lambda>out.
       health_checks rest (results @ [Health svc (stdout out)]))"

definition integration_up ::
  "string list option \<Rightarrow> bool option \<Rightarrow> string option \<Rightarrow> UpResult tool_result prog" where
  "integration_up svcs build checkpoint =
     ReadManifest (\<lambda>manifest.
       case manifest of
         None \<Rightarrow> Return (Text ''Error: No vers-integration.yaml found.'')
       | Some manifest \<Rightarrow>
           bind (if flag build
                 then execVers ''build'' (\<lambda>out.
                        Return [BuildStep (or_str (stdout out) (stderr out))])
                 else Return [])
             (\<lambda>results.
                let servicesToStart =
                      (case svcs of Some l \<Rightarrow> l | None \<Rightarrow> map fst (services manifest))
                in bind (start_services manifest servicesToStart ([], []))
                     (\<lambda>(started, failed).
                        bind (health_checks started results)
                          (\<lambda>results.
                             bind (case checkpoint of
                                     Some cp \<Rightarrow>
                                       if cp \<noteq> [] \<and> failed = []
                                       then execVers (''commit --tag \"'' @ cp @ ''\"'')
                                              (\<lambda>_. Return (results @ [CheckpointCreated cp]))
                                       else Return results
                                   | None \<Rightarrow> Return results)
                               (\<lambda>results.
                                  Return (Json
                                    \<lparr>up_status = (if failed = [] then ''success''
                                                   else ''partial''),
                                     up_started = started, up_failed = failed,
                                     up_details = results\<rparr>))))))"

section \<open>Running tests: \<open>integration_test\<close>\<close>

text \<open>
  \<open>{ ...suiteConfig.env, ...branch.env }\<close>: the suite's entries, then the branch's;
  a key of the branch that the suite also has keeps the suite's position and takes the
  branch's value.
\<close>

definition spread :: "(string \<times> string) list option \<Rightarrow> (string \<times> string) list" where
  "spread e = (case e of None \<Rightarrow> [] | Some kvs \<Rightarrow> kvs)"

definition merge_env ::
  "(string \<times> string) list option \<Rightarrow> (string \<times> string) list option \<Rightarrow>
   (string \<times> string) list" where
  "merge_env suite_env branch_env =
     fold (\<lambda>(k, v) acc. AList.update k v acc) (spread branch_env) (spread suite_env)"

text \<open>\<open>if (hook) await execAsync(hook)\<close> for the \<open>before\<close> and \<open>after\<close> scripts.\<close>

definition run_hook :: "string option \<Rightarrow> unit prog" where
  "run_hook hook =
     (case hook of
        None \<Rightarrow> Return ()
      | Some h \<Rightarrow> if h \<noteq> [] then execAsync h (\<lambda>_. Return ()) else Return ())"

text \<open>
  The \<open>try { ... } catch (error) { ... }\<close> around the test command: it yields the
  result that is pushed to \<open>suiteResults\<close>.
\<close>

definition timed_test :: "string \<Rightarrow> string \<Rightarrow> string \<Rightarrow> TestResult prog" where
  "timed_test suiteName branchName cmd =
     Now (\<lambda>startTime.
       try_catch
         (execAsync cmd (\<lambda>out.
            Now (\<lambda>t. Return \<lparr>suite = suiteName, branch = branchName, tr_status = Passed,
                              duration_ms = int t - int startTime,
                              tr_output = Some (stdout out), tr_error = None\<rparr>)))
         (\<lambda>msg.
            Now (\<lambda>t. Return \<lparr>suite = suiteName, branch = branchName, tr_status = Failed,
                              duration_ms = int t - int startTime,
                              tr_output = None, tr_error = Some msg\<rparr>)))"

text \<open>The body of \<open>for (const branch of suiteConfig.branches)\<close>.\<close>

definition run_scenario ::
  "string \<Rightarrow> string \<Rightarrow> TestSuite \<Rightarrow> TestBranch \<Rightarrow> TestResult list \<Rightarrow> TestResult list prog"
  where
  "run_scenario prefix suiteName suiteConfig br suiteResults =
     (let branchAlias = prefix @ ''-'' @ suiteName @ ''-'' @ tb_name br in
      execVers (''branch --alias '' @ branchAlias) (\<lambda>_.
      execVers (''checkout '' @ branchAlias) (\<lambda>_.
      bind (run_hook (before br)) (\<lambda>_.
      let env = merge_env (ts_env suiteConfig) (tb_env br);
          envStr = join '' '' (map (\<lambda>(k, v). k @ ''='' @ v) env)
      in bind (timed_test suiteName (tb_name br) (envStr @ '' '' @ command suiteConfig))
           (\<lambda>result.
              bind (run_hook (after br)) (\<lambda>_. Return (suiteResults @ [result])))))))"

fun run_scenarios ::
  "string \<Rightarrow> string \<Rightarrow> TestSuite \<Rightarrow> TestBranch list \<Rightarrow> TestResult list \<Rightarrow>
   TestResult list prog" where
  "run_scenarios prefix suiteName suiteConfig [] suiteResults = Return suiteResults"
| "run_scenarios prefix suiteName suiteConfig (br # rest) suiteResults =
     bind (run_scenario prefix suiteName suiteConfig br suiteResults)
       (run_scenarios prefix suiteName suiteConfig rest)"

text \<open>
  \<open>runTest(suiteName, suiteConfig)\<close>. When the \<open>suite\<close> argument names a suite the
  manifest does not have, \<open>suiteConfig\<close> is \<open>undefined\<close> and reading
  \<open>suiteConfig.branches\<close> throws.
\<close>

definition runTest :: "string \<Rightarrow> string \<Rightarrow> TestSuite option \<Rightarrow> TestResult list prog" where
  "runTest prefix suiteName suiteConfig =
     (case suiteConfig of
        None \<Rightarrow> Throw ''Cannot read properties of undefined (reading 'branches')''
      | Some cfg \<Rightarrow>
          (case branches cfg of
             Some (b # bs) \<Rightarrow> run_scenarios prefix suiteName cfg (b # bs) []
           | _ \<Rightarrow>
               (let branchAlias = prefix @ ''-'' @ suiteName in
                execVers (''branch --alias '' @ branchAlias) (\<lambda>_.
                execVers (''checkout '' @ branchAlias) (\<lambda>_.
                bind (timed_test suiteName branchAlias (command cfg))
                  (\<lambda>result. Return [result]))))))"

text \<open>The sequential loop \<open>for (const [name, config] of Object.entries(suitesToRun))\<close>.\<close>

fun run_suites ::
  "string \<Rightarrow> (string \<times> TestSuite option) list \<Rightarrow> TestResult list \<Rightarrow> TestResult list prog"
  where
  "run_suites prefix [] results = Return results"
| "run_suites prefix ((nm, cfg) # rest) results =
     bind (runTest prefix nm cfg) (\<lambda>suiteResults.
       run_suites prefix rest (results @ suiteResults))"

record TestReport =
  rep_total :: nat
  rep_passed :: nat
  rep_failed :: nat
  rep_results :: "TestResult list"

definition test_report :: "TestResult list \<Rightarrow> TestReport tool_result" where
  "test_report rs =
     Json \<lparr>rep_total = length rs,
           rep_passed = length (filter (\<lambda>r. tr_status r = Passed) rs),
           rep_failed = length (filter (\<lambda>r. tr_status r = Failed) rs),
           rep_results = rs\<rparr>"

definition suitesToRun ::
  "string option \<Rightarrow> (string \<times> TestSuite) list \<Rightarrow> (string \<times> TestSuite option) list" where
  "suitesToRun suite_arg ts =
     (case suite_arg of
        Some s \<Rightarrow> if s \<noteq> [] then [(s, map_of ts s)] else map (\<lambda>(n, c). (n, Some c)) ts
      | None \<Rightarrow> map (\<lambda>(n, c). (n, Some c)) ts)"

definition integration_test ::
  "string option \<Rightarrow> bool option \<Rightarrow> string option \<Rightarrow>
   (TestResult list, TestReport tool_result) fork prog" where
  "integration_test suite_arg par branch_prefix =
     ReadManifest (\<lambda>manifest.
       case manifest of
         None \<Rightarrow> Return (Done (Text ''Error: No tests defined in vers-integration.yaml''))
       | Some m \<Rightarrow>
           (case tests m of
              None \<Rightarrow> Return (Done (Text ''Error: No tests defined in vers-integration.yaml''))
            | Some ts \<Rightarrow>
                (let prefix = or_opt_str branch_prefix ''test'' in
                 Now (\<lambda>now.
                 execVers (''commit --tag \"'' @ prefix @ ''-baseline-'' @ show_nat now @ ''\"'')
                   (\<lambda>_.
                      if flag par
                      then Return (All (map (\<lambda>(nm, cfg). runTest prefix nm cfg)
                                          (suitesToRun suite_arg ts))
                                     (\<lambda>allResults. Return (test_report (concat allResults))))
                      else bind (run_suites prefix (suitesToRun suite_arg ts) [])
                             (\<lambda>results. Return (Done (test_report results))))))))"

section \<open>Version matrix: \<open>integration_matrix\<close>\<close>

type_synonym combo = "(string \<times> scalar) list"

text \<open>A scalar inside a template literal, \<open>`${v}`\<close>.\<close>

fun show_scalar :: "scalar \<Rightarrow> string" where
  "show_scalar (Str s) = s"
| "show_scalar (Num n) = show_int n"
| "show_scalar (Bool b) = (if b then ''true'' else ''false'')"
| "show_scalar Null = ''null''"

text \<open>
  \<open>filter[key]\<close>. The \<open>filter\<close> argument is what the schema \<open>z.record(z.string())\<close>
  returns: a plain object whose own properties are strings and whose prototype is
  \<open>Object.prototype\<close>. Reading a key it does not own gives \<open>undefined\<close>, unless the key
  names a member of the prototype, which is then what is read (a function, or the
  prototype itself for \<open>__proto__\<close>). The validation never makes \<open>__proto__\<close> an own
  key.
\<close>

datatype property = Undefined | Own string | Inherited

definition object_prototype_keys :: "string list" where
  "object_prototype_keys =
     [''constructor'', ''hasOwnProperty'', ''isPrototypeOf'', ''propertyIsEnumerable'',
      ''toLocaleString'', ''toString'', ''valueOf'', ''__proto__'', ''__defineGetter__'',
      ''__defineSetter__'', ''__lookupGetter__'', ''__lookupSetter__'']"

definition get_property :: "(string \<times> string) list \<Rightarrow> string \<Rightarrow> property" where
  "get_property obj key =
     (if key = ''__proto__'' then Inherited
      else case map_of obj key of
             Some s \<Rightarrow> Own s
           | None \<Rightarrow> if key \<in> set object_prototype_keys then Inherited else Undefined)"

text \<open>
  The test \<open>filter && filter[key] && filter[key] !== version\<close> that skips a version.
  An own entry is truthy when it is not the empty string; an inherited member is always
  truthy. \<open>!==\<close> compares without conversion: an own entry differs from every version
  that is not the same string, a number included, and an inherited member differs from
  every version.
\<close>

definition filtered_out :: "(string \<times> string) list option \<Rightarrow> string \<Rightarrow> scalar \<Rightarrow> bool" where
  "filtered_out flt key ver =
     (case flt of
        None \<Rightarrow> False
      | Some f \<Rightarrow> (case get_property f key of
                    Undefined \<Rightarrow> False
                  | Own fv \<Rightarrow> fv \<noteq> [] \<and> Str fv \<noteq> ver
                  | Inherited \<Rightarrow> True))"

text \<open>
  \<open>generate(index, current)\<close>. \<open>current\<close> is one object shared by all recursive
  calls and assigned in place, and \<open>combinations\<close> is the array the copies are pushed
  to, so both are passed through. \<open>mx\<close> is \<open>manifest.matrix\<close>; its keys are
  \<open>Object.keys(matrix)\<close>. The recursion starts at index 0 and never passes
  \<open>keys.length\<close>. The assignment \<open>current[key] = version\<close> sets an own property of
  \<open>current\<close> for every key but \<open>__proto__\<close>; a dimension of that name is not covered.
\<close>

function generate ::
  "(string \<times> scalar list) list \<Rightarrow> (string \<times> string) list option \<Rightarrow> nat \<Rightarrow>
   combo \<times> combo list \<Rightarrow> combo \<times> combo list" where
  "generate mx flt index (current, combinations) =
     (if index = length mx then (current, combinations @ [current])
      else if length mx < index then (current, combinations)
      else
        (let key = fst (mx ! index); versions = snd (mx ! index) in
         fold (\<lambda>ver (current, combinations).
                 if filtered_out flt key ver then (current, combinations)
                 else generate mx flt (index + 1)
                        (AList.update key ver current, combinations))
              versions (current, combinations)))"
  by pat_completeness auto
termination
  by (relation "measure (\<lambda>(mx, flt, index, s). length mx - index)") auto







record MatrixResult =
  combination :: combo
  mr_branch :: "string option"
  mr_status :: status
  mr_output :: "string option"
  mr_error :: "string option"

text \<open>
  The assignment \<open>svcConfig.template = `${svcName}@${version}`\<close> for one entry of the
  combination, where \<open>svcName\<close> is the part of the template before the first \<open>@\<close>.
\<close>

definition set_version :: "string \<Rightarrow> scalar \<Rightarrow> IntegrationManifest \<Rightarrow> IntegrationManifest" where
  "set_version service ver m =
     (case map_of (services m) service of
        None \<Rightarrow> m
      | Some svcConfig \<Rightarrow>
          (let svcName = takeWhile (\<lambda>c. c \<noteq> CHR ''@'') (template svcConfig) in
           m\<lparr>services :=
               AList.update service (svcConfig\<lparr>template := svcName @ ''@'' @ show_scalar ver\<rparr>)
                 (services m)\<rparr>))"

definition runCombination :: "combo \<Rightarrow> MatrixResult prog" where
  "runCombination cmb =
     (let nm = join ''-'' (map (\<lambda>(k, v). k @ show_scalar v) cmb) in
      execVers (''branch --alias matrix-'' @ nm) (\<lambda>_.
      execVers (''checkout matrix-'' @ nm) (\<lambda>_.
      Mutate (\<lambda>m. fold (\<lambda>(service, ver) m. set_version service ver m) cmb m)
        (execVers ''service restart --all'' (\<lambda>_.
         execAsync ''npm test'' (\<lambda>out.
           Return \<lparr>combination = cmb, mr_branch = Some (''matrix-'' @ nm),
                   mr_status = (if stderr out \<noteq> [] then Failed else Passed),
                   mr_output = Some (or_str (stdout out) (stderr out)),
                   mr_error = None\<rparr>))))))"

text \<open>
  The sequential loop over the combinations. The second component of what the
  \<open>try\<close>/\<open>catch\<close> yields says whether the loop \<open>break\<close>s.
\<close>

fun matrix_loop :: "bool \<Rightarrow> combo list \<Rightarrow> MatrixResult list \<Rightarrow> MatrixResult list prog" where
  "matrix_loop cont [] results = Return results"
| "matrix_loop cont (cmb # rest) results =
     bind (try_catch
             (bind (runCombination cmb)
                (\<lambda>result. Return (result, mr_status result = Failed \<and> \<not> cont)))
             (\<lambda>msg. Return (\<lparr>combination = cmb, mr_branch = None, mr_status = Error,
                               mr_output = None, mr_error = Some msg\<rparr>, \<not> cont)))
       (\<lambda>(result, brk).
          if brk then Return (results @ [result])
          else matrix_loop cont rest (results @ [result]))"

record MatrixReport =
  rep_matrix :: "(string \<times> scalar list) list"
  total_combinations :: nat
  mx_passed :: nat
  mx_failed :: nat
  mx_results :: "MatrixResult list"

definition matrix_report ::
  "(string \<times> scalar list) list \<Rightarrow> combo list \<Rightarrow> MatrixResult list \<Rightarrow>
   MatrixReport tool_result" where
  "matrix_report mx combinations rs =
     Json \<lparr>rep_matrix = mx, total_combinations = length combinations,
           mx_passed = length (filter (\<lambda>r. mr_status r = Passed) rs),
           mx_failed = length (filter (\<lambda>r. mr_status r = Failed) rs),
           mx_results = rs\<rparr>"

definition integration_matrix ::
  "(string \<times> string) list option \<Rightarrow> bool option \<Rightarrow> bool option \<Rightarrow>
   (MatrixResult, MatrixReport tool_result) fork prog" where
  "integration_matrix flt par continue_on_failure =
     ReadManifest (\<lambda>manifest.
       case manifest of
         None \<Rightarrow> Return (Done (Text ''Error: No matrix defined in vers-integration.yaml''))
       | Some m \<Rightarrow>
           (case matrix m of
              None \<Rightarrow> Return (Done (Text ''Error: No matrix defined in vers-integration.yaml''))
            | Some mx \<Rightarrow>
                (let combinations = snd (generate mx flt 0 ([], [])) in
                 if flag par
                 then Return (All (map runCombination combinations)
                                (\<lambda>allResults.
                                   Return (matrix_report mx combinations allResults)))
                 else bind (matrix_loop (flag continue_on_failure) combinations [])
                        (\<lambda>results.
                           Return (Done (matrix_report mx combinations results))))))"

section \<open>Reading traces\<close>

text \<open>
  A branch creation is a command \<open>vers branch --alias <alias>\<close> sent through
  \<open>execVers\<close>; \<open>branch_aliases\<close> lists the aliases of the branch creations of a trace
  in the order in which they were issued.
\<close>

definition is_branch_create :: "event \<Rightarrow> bool" where
  "is_branch_create e =
     (case e of EvExec og c r \<Rightarrow> og = ViaExecVers \<and> take 20 c = ''vers branch --alias ''
      | _ \<Rightarrow> False)"

definition alias_of :: "event \<Rightarrow> string" where
  "alias_of e = (case e of EvExec og c r \<Rightarrow> drop 20 c | _ \<Rightarrow> [])"

definition branch_aliases :: "event list \<Rightarrow> string list" where
  "branch_aliases evs = map alias_of (filter is_branch_create evs)"

section \<open>Concrete worlds and states used by the examples\<close>

text \<open>
  \<open>quiet\<close> answers every command with empty output and shows a fixed clock;
  \<open>fresh\<close> is a working directory without a manifest.
\<close>

definition quiet :: world where
  "quiet = \<lparr>respond = (\<lambda>_ _. Resolved \<lparr>stdout = [], stderr = []\<rparr>),
             clock = (\<lambda>_. 1700000000000)\<rparr>"

definition fresh :: state where
  "fresh = \<lparr>disk_manifest = None, files = Map.empty, dirs = {}, heap_manifest = None,
             trace = []\<rparr>"

text \<open>The command lines of a trace, in the order in which they were run.\<close>

fun commands :: "event list \<Rightarrow> string list" where
  "commands [] = []"
| "commands (EvExec og c r # es) = c # commands es"
| "commands (e # es) = commands es"

text \<open>
  A manifest whose services form a chain: \<open>api\<close> depends on \<open>db\<close>, which depends on
  \<open>storage\<close>, declared in that order.
\<close>

definition chain_manifest :: IntegrationManifest where
  "chain_manifest =
     (base_manifest ''chain'')
       \<lparr>services :=
          [(''api'', (mk_service ''node@20'' None)\<lparr>depends_on := Some [''db'']\<rparr>),
           (''db'', (mk_service ''postgres@15'' None)\<lparr>depends_on := Some [''storage'']\<rparr>),
           (''storage'', mk_service ''localstack'' None)]\<rparr>"



text \<open>
  The suite of the specification's example: \<open>checkout\<close> with the scenarios
  \<open>credit-card\<close> and \<open>paypal\<close>.
\<close>

definition checkout_manifest :: IntegrationManifest where
  "checkout_manifest =
     (base_manifest ''shop'')
       \<lparr>tests := Some
          [(''checkout'',
            \<lparr>command = ''npm run test:checkout'', parallel = Some True,
             ts_depends_on = None,
             branches = Some
               [\<lparr>tb_name = ''credit-card'', tb_env = Some [(''CARD'', ''4242'')],
                 before = None, after = None\<rparr>,
                \<lparr>tb_name = ''paypal'', tb_env = Some [(''METHOD'', ''paypal'')],
                 before = None, after = None\<rparr>],
             ts_env = None\<rparr>)]\<rparr>"

text \<open>Two suites without scenario variants.\<close>

definition two_suites_manifest :: IntegrationManifest where
  "two_suites_manifest =
     (base_manifest ''app'')
       \<lparr>tests := Some [(''api'', test_suite ''npm run test:api'' None None),
                       (''ui'', test_suite ''npm run test:ui'' None None)]\<rparr>"

text \<open>
  A suite whose first scenario has an \<open>after\<close> script, and a world in which that
  script exits with an error while every other command succeeds.
\<close>

definition hook_branch :: TestBranch where
  "hook_branch = \<lparr>tb_name = ''first'', tb_env = None, before = None,
                   after = Some ''./cleanup.sh''\<rparr>"

definition hook_suite :: TestSuite where
  "hook_suite =
     \<lparr>command = ''npm test'', parallel = None, ts_depends_on = None,
      branches = Some
        [hook_branch,
         \<lparr>tb_name = ''second'', tb_env = None, before = None, after = None\<rparr>],
      ts_env = None\<rparr>"

definition hook_manifest :: IntegrationManifest where
  "hook_manifest = (base_manifest ''app'')\<lparr>tests := Some [(''api'', hook_suite)]\<rparr>"

definition cleanup_fails :: world where
  "cleanup_fails =
     \<lparr>respond = (\<lambda>_ c. if c = ''./cleanup.sh'' then Rejected ''Command failed: ./cleanup.sh''
                         else Resolved \<lparr>stdout = [], stderr = []\<rparr>),
      clock = (\<lambda>_. 1700000000000)\<rparr>"

text \<open>A suite with two scenarios of the same name.\<close>

definition dup_suite :: TestSuite where
  "dup_suite =
     \<lparr>command = ''npm test'', parallel = None, ts_depends_on = None,
      branches = Some
        [\<lparr>tb_name = ''smoke'', tb_env = Some [(''MODE'', ''fast'')], before = None,
          after = None\<rparr>,
         \<lparr>tb_name = ''smoke'', tb_env = Some [(''MODE'', ''full'')], before = None,
          after = None\<rparr>],
      ts_env = None\<rparr>"

definition dup_manifest :: IntegrationManifest where
  "dup_manifest = (base_manifest ''app'')\<lparr>tests := Some [(''api'', dup_suite)]\<rparr>"

text \<open>\<open>dooms w p\<close>: in every interleaving the handler \<open>p\<close> ends by throwing.\<close>

definition dooms :: "world \<Rightarrow> 'a prog \<Rightarrow> bool" where
  "dooms w p = wp w p (\<lambda>_ r. isl r)"

text \<open>
  The alias each scenario of a run derives: \<open>${prefix}-${suiteName}-${branch.name}\<close>
  for the scenarios of a suite with branches, \<open>${prefix}-${suiteName}\<close> for a suite
  without.
\<close>

definition suite_aliases :: "string \<Rightarrow> string \<Rightarrow> TestSuite option \<Rightarrow> string list" where
  "suite_aliases prefix nm cfg =
     (case cfg of
        None \<Rightarrow> []
      | Some c \<Rightarrow>
          (case branches c of
             Some (b # bs) \<Rightarrow> map (\<lambda>br. prefix @ ''-'' @ nm @ ''-'' @ tb_name br) (b # bs)
           | _ \<Rightarrow> [prefix @ ''-'' @ nm]))"

definition run_aliases :: "string \<Rightarrow> (string \<times> TestSuite option) list \<Rightarrow> string list" where
  "run_aliases prefix suites = concat (map (\<lambda>(nm, cfg). suite_aliases prefix nm cfg) suites)"

text \<open>No \<open>before\<close> or \<open>after\<close> script of the suite ever exits with an error.\<close>

definition hooks_resolve :: "world \<Rightarrow> TestSuite option \<Rightarrow> bool" where
  "hooks_resolve w cfg \<longleftrightarrow>
     (\<forall>c bs br h. cfg = Some c \<and> branches c = Some bs \<and> br \<in> set bs \<and>
        (before br = Some h \<or> after br = Some h) \<longrightarrow>
        (\<forall>l. \<exists>out. respond w l h = Resolved out))"

text \<open>
  A manifest with one service and a matrix over two of its versions, and a world in
  which \<open>npm test\<close> exits with code 0 but writes to standard error, which the handler
  reads as a failed combination.
\<close>

definition matrix_manifest :: IntegrationManifest where
  "matrix_manifest =
     (base_manifest ''app'')
       \<lparr>services := [(''postgres'', mk_service ''postgres@15'' None)],
        matrix := Some [(''postgres'', [Num 14, Num 16])]\<rparr>"

definition tests_fail :: world where
  "tests_fail =
     \<lparr>respond = (\<lambda>_ c. if c = ''npm test''
                         then Resolved \<lparr>stdout = [], stderr = ''1 failing''\<rparr>
                         else Resolved \<lparr>stdout = [], stderr = []\<rparr>),
      clock = (\<lambda>_. 1700000000000)\<rparr>"

text \<open>The alias of a combination's branch: \<open>matrix-\<close> and the joined \<open>key value\<close> pairs.\<close>

definition matrix_alias :: "combo \<Rightarrow> string" where
  "matrix_alias cmb = ''matrix-'' @ join ''-'' (map (\<lambda>(k, v). k @ show_scalar v) cmb)"

text \<open>
  What the sequential loop over the combinations leaves in \<open>results\<close>: the results of an
  initial segment of the combinations, all of them when \<open>continue_on_failure\<close> is set,
  and otherwise the segment that ends with the first result that is not \<open>passed\<close>.
\<close>

definition loop_results :: "bool \<Rightarrow> combo list \<Rightarrow> MatrixResult list \<Rightarrow> bool" where
  "loop_results cont combos rs \<longleftrightarrow>
     map combination rs = take (length rs) combos \<and> length rs \<le> length combos \<and>
     (cont \<longrightarrow> length rs = length combos) \<and>
     (\<not> cont \<longrightarrow>
        (\<forall>i. Suc i < length rs \<longrightarrow> mr_status (rs ! i) = Passed) \<and>
        (length rs < length combos \<longrightarrow>
           rs \<noteq> [] \<and> (mr_status (last rs) = Failed \<or> mr_status (last rs) = Error)))"

section \<open>What a handler may change\<close>

text \<open>
  \<open>confined R p\<close>: the handler \<open>p\<close> neither reads the manifest file again nor writes
  it, and every assignment it makes to the manifest object takes a manifest \<open>m\<close> to one
  that \<open>R\<close> relates to \<open>m\<close>.
\<close>

primrec confined ::
  "(IntegrationManifest \<Rightarrow> IntegrationManifest \<Rightarrow> bool) \<Rightarrow> 'a prog \<Rightarrow> bool" where
  "confined R (Return v) = True"
| "confined R (Throw e) = True"
| "confined R (Exec og c k) = (\<forall>r. confined R (k r))"
| "confined R (Now k) = (\<forall>t. confined R (k t))"
| "confined R (ReadManifest k) = False"
| "confined R (WriteManifest m p) = False"
| "confined R (Mkdir d p) = confined R p"
| "confined R (WriteFile f c p) = confined R p"
| "confined R (Mutate f p) = ((\<forall>m. R m (f m)) \<and> confined R p)"

text \<open>
  Two manifests that differ at most in the \<open>template\<close> fields of their services: the same
  services under the same names in the same order, and every other field equal.
\<close>

definition templates_only :: "IntegrationManifest \<Rightarrow> IntegrationManifest \<Rightarrow> bool" where
  "templates_only m m' \<longleftrightarrow>
     m' = m\<lparr>services := services m'\<rparr> \<and>
     list_all2 (\<lambda>(k, s) (k', s'). k' = k \<and> s' = s\<lparr>template := template s'\<rparr>)
       (services m) (services m')"

text \<open>The state still holds the manifest \<open>m\<close> on disk, and in memory one related to it.\<close>

definition holds :: "(IntegrationManifest \<Rightarrow> IntegrationManifest \<Rightarrow> bool) \<Rightarrow>
    IntegrationManifest \<Rightarrow> state \<Rightarrow> bool" where
  "holds R m st \<longleftrightarrow>
     disk_manifest st = Some m \<and> (\<exists>m'. heap_manifest st = Some m' \<and> R m m')"

section \<open>Basic facts\<close>

declare show_nat.simps [simp del]

lemma show_nat_small: "n < 10 \<Longrightarrow> show_nat n = [digit n]"
  by (subst show_nat.simps) simp

lemma show_nat_large: "10 \<le> n \<Longrightarrow> show_nat n = show_nat (n div 10) @ [digit (n mod 10)]"
  by (subst show_nat.simps) simp

lemmas show_nat_eval = show_nat_small show_nat_large digit_def

section \<open>Sequencing, exceptions and \<open>Promise.all\<close>\<close>

lemma run_bind:
  "run w (bind p f) st =
     (case run w p st of (st', Inl e) \<Rightarrow> (st', Inl e) | (st', Inr v) \<Rightarrow> run w (f v) st')"
  by (induction p arbitrary: st) (simp_all add: Let_def)

lemma run_try_catch:
  "run w (try_catch p h) st =
     (case run w p st of (st', Inl e) \<Rightarrow> run w (h e) st' | (st', Inr v) \<Rightarrow> (st', Inr v))"
  by (induction p arbitrary: st) (simp_all add: Let_def)

lemma run_step: "run w p st = (case step w p st of (p', st') \<Rightarrow> run w p' st')"
  by (cases p) (simp_all add: Let_def)

lemma wp_mono:
  assumes "wp w p Q" and "\<And>evs r. Q evs r \<Longrightarrow> Q' evs r"
  shows "wp w p Q'"
  using assms
proof (induction p arbitrary: Q Q')
  case (Exec og c k)
  show ?case
    unfolding wp.simps
  proof
    fix l
    from Exec.prems(1)
    have "wp w (k (respond w l c)) (\<lambda>evs. Q (EvExec og c (respond w l c) # evs))"
      by simp
    then show "wp w (k (respond w l c)) (\<lambda>evs. Q' (EvExec og c (respond w l c) # evs))"
      by (rule Exec.IH [OF rangeI]) (rule Exec.prems(2))
  qed
next
  case (Now k)
  show ?case
    unfolding wp.simps
  proof
    fix l
    from Now.prems(1) have "wp w (k (clock w l)) (\<lambda>evs. Q (EvNow (clock w l) # evs))"
      by simp
    then show "wp w (k (clock w l)) (\<lambda>evs. Q' (EvNow (clock w l) # evs))"
      by (rule Now.IH [OF rangeI]) (rule Now.prems(2))
  qed
next
  case (ReadManifest k)
  show ?case
    unfolding wp.simps
  proof
    fix m
    from ReadManifest.prems(1) have "wp w (k m) (\<lambda>evs. Q (EvReadManifest # evs))"
      by simp
    then show "wp w (k m) (\<lambda>evs. Q' (EvReadManifest # evs))"
      by (rule ReadManifest.IH [OF rangeI]) (rule ReadManifest.prems(2))
  qed
next
  case (WriteManifest m p)
  from WriteManifest.prems(1) have "wp w p (\<lambda>evs. Q (EvWriteManifest # evs))" by simp
  then have "wp w p (\<lambda>evs. Q' (EvWriteManifest # evs))"
    by (rule WriteManifest.IH) (rule WriteManifest.prems(2))
  then show ?case by simp
next
  case (Mkdir d p)
  from Mkdir.prems(1) have "wp w p (\<lambda>evs. Q (EvMkdir d # evs))" by simp
  then have "wp w p (\<lambda>evs. Q' (EvMkdir d # evs))"
    by (rule Mkdir.IH) (rule Mkdir.prems(2))
  then show ?case by simp
next
  case (WriteFile f c p)
  from WriteFile.prems(1) have "wp w p (\<lambda>evs. Q (EvWriteFile f # evs))" by simp
  then have "wp w p (\<lambda>evs. Q' (EvWriteFile f # evs))"
    by (rule WriteFile.IH) (rule WriteFile.prems(2))
  then show ?case by simp
next
  case (Mutate f p)
  from Mutate.prems(1) have "wp w p Q" by simp
  then have "wp w p Q'"
    by (rule Mutate.IH) (rule Mutate.prems(2))
  then show ?case by simp
qed simp_all

lemma wp_bind:
  "wp w p (\<lambda>evs r. case r of Inl e \<Rightarrow> Q evs (Inl e)
                       | Inr v \<Rightarrow> wp w (f v) (\<lambda>evs'. Q (evs @ evs'))) \<Longrightarrow>
   wp w (bind p f) Q"
  by (induction p arbitrary: Q) (simp_all)

lemma wp_try_catch:
  "wp w p (\<lambda>evs r. case r of Inl e \<Rightarrow> wp w (h e) (\<lambda>evs'. Q (evs @ evs'))
                       | Inr v \<Rightarrow> Q evs (Inr v)) \<Longrightarrow>
   wp w (try_catch p h) Q"
  by (induction p arbitrary: Q) (simp_all)

lemma wp_run:
  "wp w p Q \<Longrightarrow> \<exists>evs. trace (fst (run w p st)) = trace st @ evs \<and> Q evs (snd (run w p st))"
proof (induction p arbitrary: Q st)
  case (Exec og c k)
  from Exec.prems have "wp w (k (respond w (trace st) c))
      (\<lambda>evs. Q (EvExec og c (respond w (trace st) c) # evs))"
    by simp
  from Exec.IH [OF _ this, of "emit (EvExec og c (respond w (trace st) c)) st"]
  show ?case by (auto simp: Let_def emit_def)
next
  case (Now k)
  from Now.prems have "wp w (k (clock w (trace st))) (\<lambda>evs. Q (EvNow (clock w (trace st)) # evs))"
    by simp
  from Now.IH [OF _ this, of "emit (EvNow (clock w (trace st))) st"]
  show ?case by (auto simp: Let_def emit_def)
next
  case (ReadManifest k)
  from ReadManifest.prems have "wp w (k (disk_manifest st)) (\<lambda>evs. Q (EvReadManifest # evs))"
    by simp
  from ReadManifest.IH [OF _ this, of "emit EvReadManifest (st\<lparr>heap_manifest := disk_manifest st\<rparr>)"]
  show ?case by (auto simp: emit_def)
next
  case (WriteManifest m p)
  from WriteManifest.IH [of "\<lambda>evs. Q (EvWriteManifest # evs)"
      "emit EvWriteManifest (st\<lparr>disk_manifest := Some m\<rparr>)"] WriteManifest.prems
  show ?case by (auto simp: emit_def)
next
  case (Mkdir d p)
  from Mkdir.IH [of "\<lambda>evs. Q (EvMkdir d # evs)"
      "emit (EvMkdir d) (st\<lparr>dirs := insert d (dirs st)\<rparr>)"] Mkdir.prems
  show ?case by (auto simp: emit_def)
next
  case (WriteFile f c p)
  from WriteFile.IH [of "\<lambda>evs. Q (EvWriteFile f # evs)"
      "emit (EvWriteFile f) (st\<lparr>files := (files st)(f \<mapsto> c)\<rparr>)"] WriteFile.prems
  show ?case by (auto simp: emit_def)
next
  case (Mutate f p)
  from Mutate.IH [of Q "st\<lparr>heap_manifest := map_option f (heap_manifest st)\<rparr>"] Mutate.prems
  show ?case by auto
qed simp_all

lemma wp_step:
  "wp w p Q \<Longrightarrow>
   \<exists>ev. trace (snd (step w p st)) = trace st @ ev \<and>
        wp w (fst (step w p st)) (\<lambda>evs. Q (ev @ evs))"
proof (cases p)
  case (Exec og c k)
  assume "wp w p Q"
  with Exec show ?thesis
    by (intro exI [of _ "[EvExec og c (respond w (trace st) c)]"]) (simp add: Let_def emit_def)
next
  case (Now k)
  assume "wp w p Q"
  with Now show ?thesis
    by (intro exI [of _ "[EvNow (clock w (trace st))]"]) (simp add: Let_def emit_def)
next
  case (ReadManifest k)
  assume "wp w p Q"
  with ReadManifest show ?thesis
    by (intro exI [of _ "[EvReadManifest]"]) (simp add: emit_def)
next
  case (WriteManifest m q)
  assume "wp w p Q"
  with WriteManifest show ?thesis
    by (intro exI [of _ "[EvWriteManifest]"]) (simp add: emit_def)
next
  case (Mkdir d q)
  assume "wp w p Q"
  with Mkdir show ?thesis
    by (intro exI [of _ "[EvMkdir d]"]) (simp add: emit_def)
next
  case (WriteFile f c q)
  assume "wp w p Q"
  with WriteFile show ?thesis
    by (intro exI [of _ "[EvWriteFile f]"]) (simp add: emit_def)
qed (auto intro: exI [of _ "[]"])


subsection \<open>Promise.all\<close>

lemma mset_concat_update:
  "j < length xss \<Longrightarrow> mset (concat (xss[j := ev @ xss ! j])) = mset ev + mset (concat xss)"
proof (induction xss arbitrary: j)
  case Nil
  then show ?case by simp
next
  case (Cons xs xss)
  then show ?case by (cases j) simp_all
qed

lemma shifted_shifted: "shifted (shifted Q xs) ys = shifted Q (xs @ ys)"
  by (simp add: shifted_def)

lemma interleave_inv:
  "list_all2 (wp w) ps Qs \<Longrightarrow>
   \<exists>ps' st' err' accs new.
     interleave w sched ps st err = (ps', st', err') \<and> length accs = length ps \<and>
     list_all2 (wp w) ps' (map2 shifted Qs accs) \<and>
     trace st' = trace st @ new \<and> mset new = mset (concat accs)"
proof (induction sched arbitrary: ps st err Qs)
  case Nil
  have "map2 shifted Qs (replicate (length ps) []) = Qs"
    using list_all2_lengthD [OF Nil]
    by (intro nth_equalityI) (simp_all add: shifted_def)
  with Nil show ?case
    by (intro exI [of _ ps] exI [of _ st] exI [of _ err]
        exI [of _ "replicate (length ps) []"] exI [of _ "[]"]) simp
next
  case (Cons i sched)
  show ?case
  proof (cases "ps = []")
    case True
    with Cons.prems show ?thesis by simp
  next
    case False
    let ?j = "i mod length ps"
    have j: "?j < length ps" using False by simp
    have len: "length Qs = length ps"
      using list_all2_lengthD [OF Cons.prems] by simp
    obtain p' st1 where stp: "step w (ps ! ?j) st = (p', st1)"
      by (cases "step w (ps ! ?j) st")
    have "wp w (ps ! ?j) (Qs ! ?j)"
      using Cons.prems j by (simp add: list_all2_conv_all_nth)
    from wp_step [OF this, of st] stp obtain ev
      where ev: "trace st1 = trace st @ ev" and wp': "wp w p' (shifted (Qs ! ?j) ev)"
      by (auto simp: shifted_def)
    have "list_all2 (wp w) (ps[?j := p']) (Qs[?j := shifted (Qs ! ?j) ev])"
      using Cons.prems wp' by (simp add: list_all2_update_cong)
    from Cons.IH [OF this, of st1 "first_error err (thrown p')"]
    obtain ps' st' err' accs1 new1 where
      r: "interleave w sched (ps[?j := p']) st1 (first_error err (thrown p')) = (ps', st', err')"
      and l1: "length accs1 = length ps"
      and a1: "list_all2 (wp w) ps' (map2 shifted (Qs[?j := shifted (Qs ! ?j) ev]) accs1)"
      and t1: "trace st' = trace st1 @ new1" and m1: "mset new1 = mset (concat accs1)"
      by auto
    let ?accs = "accs1[?j := ev @ accs1 ! ?j]"
    have eq: "map2 shifted (Qs[?j := shifted (Qs ! ?j) ev]) accs1 = map2 shifted Qs ?accs"
    proof (rule nth_equalityI)
      show "length (map2 shifted (Qs[?j := shifted (Qs ! ?j) ev]) accs1) =
            length (map2 shifted Qs ?accs)"
        by simp
    next
      fix n
      assume "n < length (map2 shifted (Qs[?j := shifted (Qs ! ?j) ev]) accs1)"
      then have n: "n < length ps" using len l1 by simp
      show "map2 shifted (Qs[?j := shifted (Qs ! ?j) ev]) accs1 ! n = map2 shifted Qs ?accs ! n"
        using n len l1 by (cases "n = ?j") (simp_all add: shifted_shifted)
    qed
    have "interleave w (i # sched) ps st err = (ps', st', err')"
      using False stp r by (simp add: Let_def)
    moreover have "length ?accs = length ps" using l1 by simp
    moreover have "list_all2 (wp w) ps' (map2 shifted Qs ?accs)"
      using a1 eq by simp
    moreover have "trace st' = trace st @ (ev @ new1)"
      using t1 ev by simp
    moreover have "mset (ev @ new1) = mset (concat ?accs)"
      using m1 j l1 by (simp add: mset_concat_update)
    ultimately show ?thesis by blast
  qed
qed

lemma drain_inv:
  "list_all2 (wp w) ps Qs \<Longrightarrow>
   \<exists>rs st' err' evss.
     drain w ps st err = (rs, st', err') \<and> length evss = length ps \<and> length rs = length ps \<and>
     (\<forall>i<length ps. (Qs ! i) (evss ! i) (rs ! i)) \<and>
     trace st' = trace st @ concat evss"
proof (induction ps arbitrary: Qs st err)
  case Nil
  then show ?case by simp
next
  case (Cons p ps)
  from Cons.prems obtain Q Qs' where Qs: "Qs = Q # Qs'" and q: "wp w p Q"
    and qs: "list_all2 (wp w) ps Qs'"
    by (cases Qs) auto
  obtain st1 r where run: "run w p st = (st1, r)" by (cases "run w p st")
  from wp_run [OF q, of st] run obtain evs where
    e: "trace st1 = trace st @ evs" and qr: "Q evs r"
    by auto
  from Cons.IH [OF qs, of st1 "first_error err (case r of Inl e \<Rightarrow> Some e | Inr _ \<Rightarrow> None)"]
  obtain rs st' err' evss where
    d: "drain w ps st1 (first_error err (case r of Inl e \<Rightarrow> Some e | Inr _ \<Rightarrow> None)) =
          (rs, st', err')"
    and l: "length evss = length ps" "length rs = length ps"
    and a: "\<forall>i<length ps. (Qs' ! i) (evss ! i) (rs ! i)"
    and t: "trace st' = trace st1 @ concat evss"
    by blast
  have "drain w (p # ps) st err = (r # rs, st', err')"
    using run d by simp
  moreover have "\<forall>i<length (p # ps). (Qs ! i) ((evs # evss) ! i) ((r # rs) ! i)"
    using a qr Qs by (auto simp: nth_Cons split: nat.splits)
  moreover have "trace st' = trace st @ concat (evs # evss)"
    using t e by simp
  ultimately show ?case
    using l by (intro exI [of _ "r # rs"] exI [of _ st'] exI [of _ err'] exI [of _ "evs # evss"])
      simp
qed


lemma thrown_Some: "thrown p = Some e \<longleftrightarrow> p = Throw e"
  by (cases p) auto

lemma err_inv_fold:
  "err_inv pre err \<Longrightarrow>
   err_inv (pre @ ps) (fold (\<lambda>p err. first_error err (thrown p)) ps err)"
proof (induction ps arbitrary: pre err)
  case Nil
  then show ?case by simp
next
  case (Cons p ps)
  have "err_inv (pre @ [p]) (first_error err (thrown p))"
    using Cons.prems
    by (cases err; cases "thrown p") (auto simp: err_inv_def first_error_def thrown_Some)
  from Cons.IH [OF this] show ?case by simp
qed

lemma err_inv_init: "err_inv ps (fold (\<lambda>p err. first_error err (thrown p)) ps None)"
  using err_inv_fold [of "[]" None ps] by (simp add: err_inv_def)

lemma err_inv_step:
  assumes "err_inv ps err" and j: "j < length ps" and s: "step w (ps ! j) st = (p', st')"
  shows "err_inv (ps[j := p']) (first_error err (thrown p'))"
proof (cases err)
  case None
  with assms(1) have no: "\<forall>p \<in> set ps. thrown p = None" by (simp add: err_inv_def)
  show ?thesis
  proof (cases "thrown p'")
    case None
    with no \<open>err = None\<close> show ?thesis
      by (auto simp: err_inv_def first_error_def dest!: set_update_subset_insert [THEN subsetD])
  next
    case (Some e)
    then have "p' = Throw e" by (simp add: thrown_Some)
    with j \<open>err = None\<close> show ?thesis
      by (auto simp: err_inv_def first_error_def set_update_memI)
  qed
next
  case (Some e)
  with assms(1) have "Throw e \<in> set ps" by (simp add: err_inv_def)
  then obtain n where n: "n < length ps" "ps ! n = Throw e"
    by (auto simp: in_set_conv_nth)
  have "Throw e \<in> set (ps[j := p'])"
  proof (cases "n = j")
    case True
    with n s have "p' = Throw e" by simp
    with j show ?thesis by (simp add: set_update_memI)
  next
    case False
    with n have "ps[j := p'] ! n = Throw e" by simp
    with n show ?thesis by (metis length_list_update nth_mem)
  qed
  with Some show ?thesis by (simp add: err_inv_def first_error_def)
qed

lemma interleave_err:
  "err_inv ps err \<Longrightarrow> interleave w sched ps st err = (ps', st', err') \<Longrightarrow> err_inv ps' err'"
proof (induction sched arbitrary: ps st err)
  case Nil
  then show ?case by simp
next
  case (Cons i sched)
  show ?case
  proof (cases "ps = []")
    case True
    with Cons.prems show ?thesis by simp
  next
    case False
    let ?j = "i mod length ps"
    have j: "?j < length ps" using False by simp
    obtain p1 st1 where stp: "step w (ps ! ?j) st = (p1, st1)"
      by (cases "step w (ps ! ?j) st")
    from err_inv_step [OF Cons.prems(1) j stp]
    have "err_inv (ps[?j := p1]) (first_error err (thrown p1))" .
    moreover have "interleave w sched (ps[?j := p1]) st1 (first_error err (thrown p1)) =
        (ps', st', err')"
      using Cons.prems(2) False stp by (simp add: Let_def)
    ultimately show ?thesis by (rule Cons.IH)
  qed
qed

lemma drain_err:
  "drain w ps st err = (rs, st', err') \<Longrightarrow>
     (\<forall>e. Throw e \<in> set ps \<longrightarrow> Inl e \<in> set rs) \<and>
     (\<forall>e. err = Some e \<longrightarrow> err' = Some e) \<and>
     (err = None \<longrightarrow> (err' = None \<longrightarrow> (\<forall>r \<in> set rs. \<exists>v. r = Inr v)) \<and>
                     (\<forall>e. err' = Some e \<longrightarrow> Inl e \<in> set rs))"
proof (induction ps arbitrary: st err rs st' err')
  case Nil
  then show ?case by auto
next
  case (Cons p ps)
  obtain st1 r where run: "run w p st = (st1, r)" by (cases "run w p st")
  let ?err1 = "first_error err (case r of Inl e \<Rightarrow> Some e | Inr _ \<Rightarrow> None)"
  obtain rs1 st2 err2 where d: "drain w ps st1 ?err1 = (rs1, st2, err2)"
    by (cases "drain w ps st1 ?err1") auto
  from Cons.prems run d have eq: "rs = r # rs1" "st' = st2" "err' = err2"
    by simp_all
  note IH = Cons.IH [OF d]
  have thr: "\<forall>e. Throw e \<in> set (p # ps) \<longrightarrow> Inl e \<in> set rs"
  proof (intro allI impI)
    fix e assume "Throw e \<in> set (p # ps)"
    then consider "p = Throw e" | "Throw e \<in> set ps" by auto
    then show "Inl e \<in> set rs"
    proof cases
      case 1
      with run have "r = Inl e" by simp
      with eq show ?thesis by simp
    next
      case 2
      with IH eq show ?thesis by simp
    qed
  qed
  have keep: "\<forall>e. err = Some e \<longrightarrow> err' = Some e"
    using IH eq by (auto simp: first_error_def)
  have none: "err = None \<longrightarrow> (err' = None \<longrightarrow> (\<forall>r \<in> set rs. \<exists>v. r = Inr v)) \<and>
                     (\<forall>e. err' = Some e \<longrightarrow> Inl e \<in> set rs)"
  proof
    assume n: "err = None"
    show "(err' = None \<longrightarrow> (\<forall>r \<in> set rs. \<exists>v. r = Inr v)) \<and>
          (\<forall>e. err' = Some e \<longrightarrow> Inl e \<in> set rs)"
    proof (cases r)
      case (Inl e)
      with n have "?err1 = Some e" by (simp add: first_error_def)
      with IH have "err2 = Some e" by simp
      with eq Inl show ?thesis by simp
    next
      case (Inr v)
      with n have "?err1 = None" by (simp add: first_error_def)
      with IH eq Inr show ?thesis by auto
    qed
  qed
  from thr keep none show ?case by blast
qed

lemma all_Inr_values:
  "\<forall>r \<in> set rs. \<exists>v. r = Inr v \<Longrightarrow>
   rs = map Inr (concat (map (\<lambda>r. case r of Inl _ \<Rightarrow> [] | Inr v \<Rightarrow> [v]) rs))"
  by (induction rs) auto

lemma mset_concat_map2:
  "length xs = length ys \<Longrightarrow>
   mset (concat (map2 (@) xs ys)) = mset (concat xs) + mset (concat ys)"
  by (induction xs ys rule: list_induct2) simp_all

lemma promise_all_wp:
  assumes "list_all2 (wp w) tasks Qs"
  shows "\<exists>st' res evss rs new.
           promise_all w sched tasks st = (st', res) \<and>
           length evss = length tasks \<and> length rs = length tasks \<and>
           (\<forall>i<length tasks. (Qs ! i) (evss ! i) (rs ! i)) \<and>
           trace st' = trace st @ new \<and> mset new = mset (concat evss) \<and>
           (case res of Inr vs \<Rightarrow> rs = map Inr vs | Inl e \<Rightarrow> Inl e \<in> set rs)"
proof -
  let ?err0 = "fold (\<lambda>p err. first_error err (thrown p)) tasks None"
  have lenQ: "length Qs = length tasks"
    using list_all2_lengthD [OF assms] by simp
  from interleave_inv [OF assms, of sched st ?err0]
  obtain ps st1 err1 accs new1 where
    i: "interleave w sched tasks st ?err0 = (ps, st1, err1)"
    and la: "length accs = length tasks"
    and a: "list_all2 (wp w) ps (map2 shifted Qs accs)"
    and t1: "trace st1 = trace st @ new1" and m1: "mset new1 = mset (concat accs)"
    by blast
  have lps: "length ps = length tasks"
    using list_all2_lengthD [OF a] la lenQ by simp
  from drain_inv [OF a, of st1 err1]
  obtain rs st2 err2 evss2 where
    d: "drain w ps st1 err1 = (rs, st2, err2)"
    and l2: "length evss2 = length ps" "length rs = length ps"
    and q2: "\<forall>i<length ps. (map2 shifted Qs accs ! i) (evss2 ! i) (rs ! i)"
    and t2: "trace st2 = trace st1 @ concat evss2"
    by blast
  let ?evss = "map2 (@) accs evss2"
  let ?res = "case err2 of Some e \<Rightarrow> Inl e
              | None \<Rightarrow> Inr (concat (map (\<lambda>r. case r of Inl _ \<Rightarrow> [] | Inr v \<Rightarrow> [v]) rs))"
  have pa: "promise_all w sched tasks st = (st2, ?res)"
    using i d by (simp add: promise_all_def)
  have q: "\<forall>i<length tasks. (Qs ! i) (?evss ! i) (rs ! i)"
    using q2 lps la lenQ l2 by (simp add: shifted_def)
  have tr: "trace st2 = trace st @ (new1 @ concat evss2)"
    using t1 t2 by simp
  have "mset (concat ?evss) = mset (concat accs) + mset (concat evss2)"
    using la l2 lps by (intro mset_concat_map2) simp
  then have ms: "mset (new1 @ concat evss2) = mset (concat ?evss)"
    using m1 by simp
  from interleave_err [OF err_inv_init i] have inv: "err_inv ps err1" .
  from drain_err [OF d] have
    thr: "\<forall>e. Throw e \<in> set ps \<longrightarrow> Inl e \<in> set rs"
    and keep: "\<forall>e. err1 = Some e \<longrightarrow> err2 = Some e"
    and none: "err1 = None \<longrightarrow> (err2 = None \<longrightarrow> (\<forall>r \<in> set rs. \<exists>v. r = Inr v)) \<and>
                     (\<forall>e. err2 = Some e \<longrightarrow> Inl e \<in> set rs)"
    by blast+
  have res: "case ?res of Inr vs \<Rightarrow> rs = map Inr vs | Inl e \<Rightarrow> Inl e \<in> set rs"
  proof (cases err2)
    case None
    with keep have "err1 = None" by (cases err1) auto
    with none None have "\<forall>r \<in> set rs. \<exists>v. r = Inr v" by simp
    from all_Inr_values [OF this] None show ?thesis by simp
  next
    case (Some e)
    show ?thesis
    proof (cases err1)
      case None
      with none Some show ?thesis by simp
    next
      case (Some e1)
      with keep \<open>err2 = Some e\<close> have "e1 = e" by simp
      with Some inv have "Throw e \<in> set ps" by (simp add: err_inv_def)
      with thr \<open>err2 = Some e\<close> show ?thesis by simp
    qed
  qed
  show ?thesis
    using pa q tr ms res la l2 lps
    by (intro exI [of _ st2] exI [of _ ?res] exI [of _ ?evss] exI [of _ rs]
        exI [of _ "new1 @ concat evss2"]) simp
qed


lemma wp_any: "wp w p (\<lambda>_ _. True)"
  by (induction p) simp_all

lemma run_trace_ext: "\<exists>new. trace (fst (run w p st)) = trace st @ new"
  using wp_run [OF wp_any, of w p st] by blast

lemma promise_all_trace_ext: "\<exists>new. trace (fst (promise_all w sched tasks st)) = trace st @ new"
proof -
  have "list_all2 (wp w) tasks (map (\<lambda>_. (\<lambda>_ _. True)) tasks)"
    by (simp add: list_all2_conv_all_nth wp_any)
  from promise_all_wp [OF this, of sched st] show ?thesis by auto
qed

lemma run_handler_trace_ext:
  "\<exists>new. trace (fst (run_handler w sched h st)) = trace st @ new"
proof -
  obtain st1 r where r: "run w h st = (st1, r)" by (cases "run w h st")
  from run_trace_ext [of w h st] r obtain n1 where n1: "trace st1 = trace st @ n1" by auto
  show ?thesis
  proof (cases r)
    case (Inl e)
    with r n1 show ?thesis by (simp add: run_handler_def)
  next
    case (Inr f)
    show ?thesis
    proof (cases f)
      case (Done a)
      with r n1 Inr show ?thesis by (simp add: run_handler_def)
    next
      case (All tasks k)
      obtain st2 res where p: "promise_all w sched tasks st1 = (st2, res)"
        by (cases "promise_all w sched tasks st1")
      from promise_all_trace_ext [of w sched tasks st1] p
      obtain n2 where n2: "trace st2 = trace st1 @ n2" by auto
      show ?thesis
      proof (cases res)
        case (Inl e)
        with r n1 Inr All p n2 show ?thesis by (simp add: run_handler_def)
      next
        case (Inr vs)
        from run_trace_ext [of w "k vs" st2] obtain n3
          where "trace (fst (run w (k vs) st2)) = trace st2 @ n3" by auto
        with r n1 \<open>r = Inr f\<close> All p n2 Inr show ?thesis
          by (simp add: run_handler_def split: prod.splits)
      qed
    qed
  qed
qed

lemma run_handler_ReadManifest:
  "run_handler w sched (ReadManifest k) st =
     run_handler w sched (k (disk_manifest st))
       (emit EvReadManifest (st\<lparr>heap_manifest := disk_manifest st\<rparr>))"
  by (simp add: run_handler_def)

lemma run_handler_Now:
  "run_handler w sched (Now k) st =
     run_handler w sched (k (clock w (trace st))) (emit (EvNow (clock w (trace st))) st)"
  by (simp add: run_handler_def Let_def)

lemma run_handler_Exec:
  "run_handler w sched (Exec og c k) st =
     run_handler w sched (k (respond w (trace st) c))
       (emit (EvExec og c (respond w (trace st) c)) st)"
  by (simp add: run_handler_def Let_def)

lemma wp_bindI:
  assumes "wp w p Q1"
    and "\<And>evs v. Q1 evs (Inr v) \<Longrightarrow> wp w (f v) (\<lambda>evs'. Q (evs @ evs'))"
    and "\<And>evs e. Q1 evs (Inl e) \<Longrightarrow> Q evs (Inl e)"
  shows "wp w (bind p f) Q"
proof (rule wp_bind, rule wp_mono [OF assms(1)])
  fix evs r
  assume "Q1 evs r"
  then show "case r of Inl e \<Rightarrow> Q evs (Inl e) | Inr v \<Rightarrow> wp w (f v) (\<lambda>evs'. Q (evs @ evs'))"
    using assms(2,3) by (cases r) auto
qed

lemma wp_try_catchI:
  assumes "wp w p Q1"
    and "\<And>evs e. Q1 evs (Inl e) \<Longrightarrow> wp w (h e) (\<lambda>evs'. Q (evs @ evs'))"
    and "\<And>evs v. Q1 evs (Inr v) \<Longrightarrow> Q evs (Inr v)"
  shows "wp w (try_catch p h) Q"
proof (rule wp_try_catch, rule wp_mono [OF assms(1)])
  fix evs r
  assume "Q1 evs r"
  then show "case r of Inl e \<Rightarrow> wp w (h e) (\<lambda>evs'. Q (evs @ evs')) | Inr v \<Rightarrow> Q evs (Inr v)"
    using assms(2,3) by (cases r) auto
qed

lemma dooms_bindI1: "dooms w p \<Longrightarrow> dooms w (bind p f)"
  unfolding dooms_def by (erule wp_bindI) auto

lemma dooms_bindI2: "(\<And>v. dooms w (f v)) \<Longrightarrow> dooms w (bind p f)"
  unfolding dooms_def
  by (rule wp_bindI [OF wp_any]) (auto intro: wp_mono)

lemma dooms_run:
  assumes "dooms w p"
  shows "\<exists>e. snd (run w p st) = Inl e"
proof -
  from assms have "wp w p (\<lambda>_ r. isl r)" by (simp add: dooms_def)
  from wp_run [OF this, of st] have "isl (snd (run w p st))" by blast
  then show ?thesis by (cases "snd (run w p st)") auto
qed

lemma promise_all_dooms:
  assumes "t \<in> set tasks" and "dooms w t"
  shows "\<exists>e. snd (promise_all w sched tasks st) = Inl e"
proof -
  let ?Qs = "map (\<lambda>t. if dooms w t then (\<lambda>_ r. isl r) else (\<lambda>_ _. True)) tasks"
  have "list_all2 (wp w) tasks ?Qs"
    by (auto simp: list_all2_conv_all_nth dooms_def wp_any)
  from promise_all_wp [OF this, of sched st] obtain st' res evss rs new where
    p: "promise_all w sched tasks st = (st', res)"
    and "length evss = length tasks"
    and l: "length rs = length tasks"
    and q: "\<forall>i<length tasks. (?Qs ! i) (evss ! i) (rs ! i)"
    and "trace st' = trace st @ new" and "mset new = mset (concat evss)"
    and r: "case res of Inr vs \<Rightarrow> rs = map Inr vs | Inl e \<Rightarrow> Inl e \<in> set rs"
    by blast
  from assms(1) obtain i where i: "i < length tasks" "tasks ! i = t"
    by (auto simp: in_set_conv_nth)
  with q assms(2) have "isl (rs ! i)" by auto
  show ?thesis
  proof (cases res)
    case (Inl e)
    with p show ?thesis by simp
  next
    case (Inr vs)
    with r have "rs = map Inr vs" by simp
    with i l \<open>isl (rs ! i)\<close> show ?thesis by auto
  qed
qed

section \<open>Chaos injection\<close>

lemma run_chaos_inject:
  "run w (chaos_inject service act duration intensity) st =
     (let ts = clock w (trace st);
          tag = ''pre-chaos-'' @ service @ ''-'' @ show_nat ts;
          c1 = ''vers commit --tag \"'' @ tag @ ''\"'';
          r1 = respond w (trace st @ [EvNow ts]) c1;
          c2 = ''vers '' @ chaosCommand service act duration intensity;
          r2 = respond w (trace st @ [EvNow ts, EvExec ViaExecVers c1 r1]) c2
      in (st\<lparr>trace := trace st @ [EvNow ts, EvExec ViaExecVers c1 r1, EvExec ViaExecVers c2 r2]\<rparr>,
          Inr \<lparr>cr_status = ''injected'', cr_service = service, cr_action = act,
               cr_duration = or_opt_str duration ''permanent'',
               rollback_checkpoint = tag,
               cr_output = or_str (stdout (caught r2)) (stderr (caught r2))\<rparr>))"
  by (simp add: chaos_inject_def execVers_def emit_def Let_def)

text \<open>
  C6. Every invocation of \<open>chaos_inject\<close>, for every service, action kind, duration,
  intensity, world and starting state, returns a result, and the calls it makes are
  exactly: the read of the clock, then \<open>vers commit --tag "pre-chaos-<service>-<ts>"\<close>,
  then the command that applies the chaos action. The commit is awaited, so it has
  completed before the chaos command is issued. The tag of that commit is the
  \<open>rollback_checkpoint\<close> of the result.
\<close>

theorem chaos_inject_checkpoint_first:
  "\<exists>st' res r1 r2.
     run w (chaos_inject service act duration intensity) st = (st', Inr res) \<and>
     trace st' = trace st @
       [EvNow (clock w (trace st)),
        EvExec ViaExecVers
          (''vers commit --tag \"pre-chaos-'' @ service @ ''-'' @
             show_nat (clock w (trace st)) @ ''\"'') r1,
        EvExec ViaExecVers (''vers '' @ chaosCommand service act duration intensity) r2] \<and>
     rollback_checkpoint res = ''pre-chaos-'' @ service @ ''-'' @ show_nat (clock w (trace st))"
  by (simp add: run_chaos_inject Let_def)

text \<open>
  C7, as the code has it. The claim fails twice. For \<open>disk-fill\<close> the default is 95:
  with no intensity given, the command issued computes \<open>$4*95/100\<close>. And the intensity
  is not held within 0 to 100: the schema is \<open>z.number()\<close>, nothing compares the value
  with a bound, and an intensity of 150 is written into the command of each of the three
  actions as it is.
\<close>

theorem stress_intensity_counterexample:
  "trace (fst (run quiet (chaos_inject ''postgres'' DiskFill None None) fresh)) =
     [EvNow 1700000000000,
      EvExec ViaExecVers ''vers commit --tag \"pre-chaos-postgres-1700000000000\"''
        (Resolved \<lparr>stdout = [], stderr = []\<rparr>),
      EvExec ViaExecVers
        ''vers execute --service postgres \"fallocate -l $(df / | awk 'NR==2 {print int($4*95/100)}')K /tmp/fill\"''
        (Resolved \<lparr>stdout = [], stderr = []\<rparr>)] \<and>
   chaosCommand ''postgres'' CpuStress None (Some 150) =
     ''execute --service postgres \"stress-ng --cpu 2 --cpu-load 150 --timeout 30s\"'' \<and>
   chaosCommand ''postgres'' MemoryStress None (Some 150) =
     ''execute --service postgres \"stress-ng --vm 1 --vm-bytes 150% --timeout 30s\"'' \<and>
   chaosCommand ''postgres'' DiskFill None (Some 150) =
     ''execute --service postgres \"fallocate -l $(df / | awk 'NR==2 {print int($4*150/100)}')K /tmp/fill\"''"
  by (simp add: run_chaos_inject Let_def quiet_def fresh_def or_num_def or_opt_str_def
      show_int_def show_nat_eval)

text \<open>
  C7, amended. With the intensity omitted, the command of \<open>cpu-stress\<close> and of
  \<open>memory-stress\<close> is written with 80 and the command of \<open>disk-fill\<close> with 95. With an
  intensity from 1 to 100, the command of each of the three actions is written with
  exactly that intensity. So whenever the intensity is omitted or lies within 1 to 100,
  the intensity used in the command lies within 0 to 100; and that command is the last
  call the handler makes.
\<close>

theorem stress_intensity_default_and_bound:
  assumes "intensity = None \<or> (\<exists>i. intensity = Some i \<and> 1 \<le> i \<and> i \<le> 100)"
  shows
    "(\<exists>u. 0 \<le> u \<and> u \<le> 100 \<and> u = (case intensity of None \<Rightarrow> 80 | Some i \<Rightarrow> i) \<and>
        chaosCommand service CpuStress duration intensity =
          ''execute --service '' @ service @ '' \"stress-ng --cpu 2 --cpu-load '' @
          show_int u @ '' --timeout '' @ or_opt_str duration ''30s'' @ ''\"'') \<and>
     (\<exists>u. 0 \<le> u \<and> u \<le> 100 \<and> u = (case intensity of None \<Rightarrow> 80 | Some i \<Rightarrow> i) \<and>
        chaosCommand service MemoryStress duration intensity =
          ''execute --service '' @ service @ '' \"stress-ng --vm 1 --vm-bytes '' @
          show_int u @ ''% --timeout '' @ or_opt_str duration ''30s'' @ ''\"'') \<and>
     (\<exists>u. 0 \<le> u \<and> u \<le> 100 \<and> u = (case intensity of None \<Rightarrow> 95 | Some i \<Rightarrow> i) \<and>
        chaosCommand service DiskFill duration intensity =
          ''execute --service '' @ service @
          '' \"fallocate -l $(df / | awk 'NR==2 {print int($4*'' @
          show_int u @ ''/100)}')K /tmp/fill\"'') \<and>
     (\<exists>st' res r.
        run w (chaos_inject service act duration intensity) st = (st', Inr res) \<and>
        last (trace st') =
          EvExec ViaExecVers (''vers '' @ chaosCommand service act duration intensity) r)"
proof -
  have u80: "or_num intensity 80 = (case intensity of None \<Rightarrow> 80 | Some i \<Rightarrow> i)"
    and u95: "or_num intensity 95 = (case intensity of None \<Rightarrow> 95 | Some i \<Rightarrow> i)"
    using assms by (auto simp: or_num_def)
  have b80: "0 \<le> or_num intensity 80 \<and> or_num intensity 80 \<le> 100"
    and b95: "0 \<le> or_num intensity 95 \<and> or_num intensity 95 \<le> 100"
    using assms by (auto simp: or_num_def)
  have cpu: "\<exists>u. 0 \<le> u \<and> u \<le> 100 \<and> u = (case intensity of None \<Rightarrow> 80 | Some i \<Rightarrow> i) \<and>
        chaosCommand service CpuStress duration intensity =
          ''execute --service '' @ service @ '' \"stress-ng --cpu 2 --cpu-load '' @
          show_int u @ '' --timeout '' @ or_opt_str duration ''30s'' @ ''\"''"
    using b80 u80 by (intro exI [of _ "or_num intensity 80"]) simp
  have mem: "\<exists>u. 0 \<le> u \<and> u \<le> 100 \<and> u = (case intensity of None \<Rightarrow> 80 | Some i \<Rightarrow> i) \<and>
        chaosCommand service MemoryStress duration intensity =
          ''execute --service '' @ service @ '' \"stress-ng --vm 1 --vm-bytes '' @
          show_int u @ ''% --timeout '' @ or_opt_str duration ''30s'' @ ''\"''"
    using b80 u80 by (intro exI [of _ "or_num intensity 80"]) simp
  have disk: "\<exists>u. 0 \<le> u \<and> u \<le> 100 \<and> u = (case intensity of None \<Rightarrow> 95 | Some i \<Rightarrow> i) \<and>
        chaosCommand service DiskFill duration intensity =
          ''execute --service '' @ service @
          '' \"fallocate -l $(df / | awk 'NR==2 {print int($4*'' @
          show_int u @ ''/100)}')K /tmp/fill\"''"
    using b95 u95 by (intro exI [of _ "or_num intensity 95"]) simp
  have issued: "\<exists>st' res r.
        run w (chaos_inject service act duration intensity) st = (st', Inr res) \<and>
        last (trace st') =
          EvExec ViaExecVers (''vers '' @ chaosCommand service act duration intensity) r"
    by (simp add: run_chaos_inject Let_def)
  from cpu mem disk issued show ?thesis by blast
qed

theorem stress_intensity_default_and_bound_witness:
  "chaosCommand ''postgres'' CpuStress None (Some 50) =
     ''execute --service postgres \"stress-ng --cpu 2 --cpu-load 50 --timeout 30s\"'' \<and>
   chaosCommand ''postgres'' MemoryStress None (Some 50) =
     ''execute --service postgres \"stress-ng --vm 1 --vm-bytes 50% --timeout 30s\"'' \<and>
   chaosCommand ''postgres'' DiskFill None (Some 50) =
     ''execute --service postgres \"fallocate -l $(df / | awk 'NR==2 {print int($4*50/100)}')K /tmp/fill\"'' \<and>
   chaosCommand ''postgres'' CpuStress None None =
     ''execute --service postgres \"stress-ng --cpu 2 --cpu-load 80 --timeout 30s\"'' \<and>
   chaosCommand ''postgres'' MemoryStress None None =
     ''execute --service postgres \"stress-ng --vm 1 --vm-bytes 80% --timeout 30s\"'' \<and>
   chaosCommand ''postgres'' DiskFill None None =
     ''execute --service postgres \"fallocate -l $(df / | awk 'NR==2 {print int($4*95/100)}')K /tmp/fill\"''"
  using stress_intensity_default_and_bound
          [where intensity = "Some 50" and service = "''postgres''" and duration = None]
        stress_intensity_default_and_bound
          [where intensity = None and service = "''postgres''" and duration = None]
  by (simp add: or_opt_str_def show_int_def show_nat_eval)

section \<open>Project initialisation\<close>

text \<open>
  C10. When \<open>vers-integration.yaml\<close> already holds a manifest, \<open>integration_init\<close>
  answers \<open>Project already initialized: <name of the existing project>\<close> for every
  name and template argument, and the only call it makes is the read of the manifest:
  the manifest on disk, the other files (\<open>vers.toml\<close>) and the directories are exactly
  as before.
\<close>

theorem integration_init_existing_untouched:
  assumes "disk_manifest st = Some ex"
  shows "\<exists>st'. run w (integration_init nm tmpl) st =
           (st', Inr (Text (''Project already initialized: '' @ name ex))) \<and>
         disk_manifest st' = disk_manifest st \<and> files st' = files st \<and>
         dirs st' = dirs st \<and> trace st' = trace st @ [EvReadManifest]"
  using assms by (simp add: integration_init_def emit_def Let_def)

theorem integration_init_existing_untouched_witness:
  "\<exists>st'. run quiet (integration_init ''other'' (Some Ecommerce))
            (fresh\<lparr>disk_manifest := Some (base_manifest ''shop'')\<rparr>) =
           (st', Inr (Text ''Project already initialized: shop'')) \<and>
         disk_manifest st' = Some (base_manifest ''shop'') \<and> files st' = Map.empty \<and>
         dirs st' = {} \<and> trace st' = [EvReadManifest]"
  using integration_init_existing_untouched
          [where st = "fresh\<lparr>disk_manifest := Some (base_manifest ''shop'')\<rparr>"
             and ex = "base_manifest ''shop''" and w = quiet and nm = "''other''"
             and tmpl = "Some Ecommerce"]
  by (simp add: fresh_def base_manifest_def)

text \<open>
  For contrast: without a manifest the handler writes the manifest, creates the two
  directories and writes \<open>vers.toml\<close>.
\<close>

lemma integration_init_fresh_writes:
  "disk_manifest st = None \<Longrightarrow>
   \<exists>st' res. run w (integration_init nm tmpl) st = (st', Inr (Json res)) \<and>
     trace st' = trace st @
       [EvReadManifest, EvWriteManifest, EvMkdir ''tests'', EvMkdir ''scripts'',
        EvWriteFile ''vers.toml''] \<and>
     disk_manifest st' \<noteq> None"
  by (simp add: integration_init_def emit_def Let_def)

section \<open>The combination generator\<close>

declare generate.simps [simp del]



















section \<open>Starting services\<close>

text \<open>
  C1 fails on the code. For the chain \<open>api \<rightarrow> db \<rightarrow> storage\<close>, with every command
  succeeding, the handler issues \<open>vers service start db\<close> first, as an unmet dependency
  of \<open>api\<close>, before any start of \<open>storage\<close>, on which \<open>db\<close> depends: the inner loop
  starts the direct dependencies of the service at hand without looking at theirs.
  \<open>db\<close> and \<open>storage\<close> are then started a second time.
\<close>

theorem integration_up_starts_dependent_first:
  "commands (trace (fst (run quiet (integration_up None None None)
      (fresh\<lparr>disk_manifest := Some chain_manifest\<rparr>)))) =
     [''vers service start db'', ''vers service start api'',
      ''vers service start storage'', ''vers service start db'',
      ''vers service start storage'', ''vers service health db --wait'',
      ''vers service health api --wait'', ''vers service health storage --wait'',
      ''vers service health db --wait'', ''vers service health storage --wait'']"
  by (simp add: integration_up_def chain_manifest_def base_manifest_def mk_service_def
      quiet_def fresh_def execVers_def emit_def flag_def truthy_def start_ok_def caught_def
      Let_def)

section \<open>Running tests\<close>

text \<open>
  The order of the baseline commit. For every run of \<open>integration_test\<close> over a
  manifest that defines tests, in parallel mode under every schedule and in sequential
  mode, for every world, suite argument and prefix: the calls of the run begin with the
  read of the manifest, the read of the clock and the command
  \<open>vers commit --tag "<prefix>-baseline-<ts>"\<close>, which is awaited, and everything else
  the run does, every branch creation included, comes after the answer to that commit.
  None of the three first calls is a branch creation.
\<close>

lemma baseline_commit_first:
  assumes "disk_manifest st = Some m" and "tests m = Some ts"
  shows "\<exists>r post.
     trace (fst (run_handler w sched (integration_test suite_arg par branch_prefix) st)) =
       trace st @
       [EvReadManifest, EvNow (clock w (trace st @ [EvReadManifest])),
        EvExec ViaExecVers
          (''vers commit --tag \"'' @ or_opt_str branch_prefix ''test'' @ ''-baseline-'' @
             show_nat (clock w (trace st @ [EvReadManifest])) @ ''\"'') r] @ post \<and>
     \<not> is_branch_create EvReadManifest \<and>
     \<not> is_branch_create (EvNow (clock w (trace st @ [EvReadManifest]))) \<and>
     \<not> is_branch_create
         (EvExec ViaExecVers
            (''vers commit --tag \"'' @ or_opt_str branch_prefix ''test'' @ ''-baseline-'' @
               show_nat (clock w (trace st @ [EvReadManifest])) @ ''\"'') r)"
proof -
  let ?t = "clock w (trace st @ [EvReadManifest])"
  let ?c = "''vers commit --tag \"'' @ or_opt_str branch_prefix ''test'' @ ''-baseline-'' @
             show_nat ?t @ ''\"''"
  let ?r = "respond w (trace st @ [EvReadManifest, EvNow ?t]) ?c"
  let ?st3 = "st\<lparr>heap_manifest := Some m,
                 trace := trace st @ [EvReadManifest, EvNow ?t, EvExec ViaExecVers ?c ?r]\<rparr>"
  let ?h = "if flag par
            then Return (All (map (\<lambda>(nm, cfg). runTest (or_opt_str branch_prefix ''test'') nm cfg)
                                (suitesToRun suite_arg ts))
                           (\<lambda>allResults. Return (test_report (concat allResults))))
            else bind (run_suites (or_opt_str branch_prefix ''test'') (suitesToRun suite_arg ts) [])
                   (\<lambda>results. Return (Done (test_report results)))"
  have "run_handler w sched (integration_test suite_arg par branch_prefix) st =
       run_handler w sched ?h ?st3"
    using assms
    by (simp add: integration_test_def run_handler_ReadManifest run_handler_Now
        run_handler_Exec execVers_def emit_def Let_def)
  moreover have "\<not> is_branch_create (EvExec ViaExecVers ?c r)" for r
    by (simp add: is_branch_create_def)
  moreover have "\<not> is_branch_create EvReadManifest" "\<not> is_branch_create (EvNow ?t)"
    by (simp_all add: is_branch_create_def)
  ultimately show ?thesis
    using run_handler_trace_ext [of w sched ?h ?st3] by auto
qed

lemmas handler_eval =
  integration_test_def integration_matrix_def run_handler_def promise_all_def
  base_manifest_def quiet_def fresh_def execVers_def execAsync_def emit_def flag_def Let_def
  suitesToRun_def runTest_def run_scenario_def timed_test_def run_hook_def merge_env_def
  spread_def or_opt_str_def or_str_def test_report_def test_suite_def show_nat_eval caught_def
  first_error_def

text \<open>
  In parallel mode the two suites' calls interleave as the schedule says; the commit is
  first all the same.
\<close>

lemma parallel_two_suites_trace:
  "commands (trace (fst (run_handler quiet [1, 0, 1] (integration_test None (Some True) None)
      (fresh\<lparr>disk_manifest := Some two_suites_manifest\<rparr>)))) =
     [''vers commit --tag \"test-baseline-1700000000000\"'',
      ''vers branch --alias test-ui'', ''vers branch --alias test-api'',
      ''vers checkout test-ui'', ''vers checkout test-api'', ''npm run test:api'',
      ''npm run test:ui'']"
  by (simp add: handler_eval two_suites_manifest_def)

lemma baseline_commit_first_two_suites:
  "\<exists>r post.
     trace (fst (run_handler quiet [1, 0, 1] (integration_test None (Some True) None)
       (fresh\<lparr>disk_manifest := Some two_suites_manifest\<rparr>))) =
       [EvReadManifest, EvNow 1700000000000,
        EvExec ViaExecVers ''vers commit --tag \"test-baseline-1700000000000\"'' r] @ post"
proof -
  have h1: "disk_manifest (fresh\<lparr>disk_manifest := Some two_suites_manifest\<rparr>) =
              Some two_suites_manifest"
    by simp
  have h2: "tests two_suites_manifest =
              Some [(''api'', test_suite ''npm run test:api'' None None),
                    (''ui'', test_suite ''npm run test:ui'' None None)]"
    by (simp add: two_suites_manifest_def)
  from baseline_commit_first [OF h1 h2, of quiet "[1, 0, 1]" None "Some True" None]
  obtain r post where
    "trace (fst (run_handler quiet [1, 0, 1] (integration_test None (Some True) None)
       (fresh\<lparr>disk_manifest := Some two_suites_manifest\<rparr>))) =
     trace (fresh\<lparr>disk_manifest := Some two_suites_manifest\<rparr>) @
       [EvReadManifest,
        EvNow (clock quiet (trace (fresh\<lparr>disk_manifest := Some two_suites_manifest\<rparr>) @
                 [EvReadManifest])),
        EvExec ViaExecVers
          (''vers commit --tag \"'' @ or_opt_str None ''test'' @ ''-baseline-'' @
             show_nat (clock quiet (trace (fresh\<lparr>disk_manifest := Some two_suites_manifest\<rparr>) @
                 [EvReadManifest])) @ ''\"'') r] @ post"
    by blast
  then show ?thesis
    by (intro exI [of _ r] exI [of _ post])
       (simp add: fresh_def quiet_def or_opt_str_def show_nat_eval)
qed

text \<open>
  C2. The commit of the baseline comes first, but the scenarios do not fork from it. The
  branch of a scenario is created by \<open>vers branch --alias <alias>\<close>, which names no
  origin, so the branch forks from the current head (the \<open>from\<close> argument of
  \<open>vers_branch_create\<close> "defaults to HEAD"), and nothing returns the head to the baseline
  between two scenarios. In the sequential run of the suite \<open>checkout\<close> the branch of
  \<open>paypal\<close> is created after the checkout of the branch of \<open>credit-card\<close> and after
  the test command has run there: it forks from what the first scenario left, not from
  the baseline. The tag of the baseline is used by no command after the commit.
\<close>

theorem scenarios_fork_from_head:
  "commands (trace (fst (run_handler quiet [] (integration_test None None None)
      (fresh\<lparr>disk_manifest := Some checkout_manifest\<rparr>)))) =
     [''vers commit --tag \"test-baseline-1700000000000\"'',
      ''vers branch --alias test-checkout-credit-card'',
      ''vers checkout test-checkout-credit-card'',
      ''CARD=4242 npm run test:checkout'',
      ''vers branch --alias test-checkout-paypal'',
      ''vers checkout test-checkout-paypal'',
      ''METHOD=paypal npm run test:checkout'']"
  by (simp add: handler_eval checkout_manifest_def)


subsection \<open>Hooks\<close>

lemma dooms_run_hook:
  assumes "h \<noteq> []" and "\<forall>l. \<exists>msg. respond w l h = Rejected msg"
  shows "dooms w (run_hook (Some h))"
proof -
  have "wp w (case respond w l h of Resolved out \<Rightarrow> Return () | Rejected msg \<Rightarrow> Throw msg)
          (\<lambda>evs r. isl r)" for l
  proof -
    from assms(2) obtain msg where "respond w l h = Rejected msg" by blast
    then show ?thesis by simp
  qed
  with assms(1) show ?thesis
    by (simp add: dooms_def run_hook_def execAsync_def)
qed

lemma dooms_run_scenario:
  assumes "after br = Some h" and "h \<noteq> []" and "\<forall>l. \<exists>msg. respond w l h = Rejected msg"
  shows "dooms w (run_scenario prefix nm cfg br rs)"
proof -
  have a: "dooms w (bind (run_hook (after br)) f)" for f :: "unit \<Rightarrow> TestResult list prog"
    using assms by (intro dooms_bindI1) (simp add: dooms_run_hook)
  have b: "dooms w (bind (timed_test nm (tb_name br) cmd)
             (\<lambda>result. bind (run_hook (after br)) (\<lambda>_. Return (rs @ [result]))))" for cmd
    by (rule dooms_bindI2) (rule a)
  have "dooms w (bind (run_hook (before br)) (\<lambda>_.
      let env = merge_env (ts_env cfg) (tb_env br);
          envStr = join '' '' (map (\<lambda>(k, v). k @ ''='' @ v) env)
      in bind (timed_test nm (tb_name br) (envStr @ '' '' @ command cfg))
           (\<lambda>result. bind (run_hook (after br)) (\<lambda>_. Return (rs @ [result])))))"
    by (rule dooms_bindI2) (simp add: Let_def b)
  then show ?thesis
    by (simp add: run_scenario_def execVers_def Let_def dooms_def)
qed

lemma dooms_run_scenarios:
  assumes "br \<in> set bs" and "after br = Some h" and "h \<noteq> []"
    and "\<forall>l. \<exists>msg. respond w l h = Rejected msg"
  shows "dooms w (run_scenarios prefix nm cfg bs rs)"
  using assms(1)
proof (induction bs arbitrary: rs)
  case Nil
  then show ?case by simp
next
  case (Cons b bs)
  show ?case
  proof (cases "b = br")
    case True
    then show ?thesis
      using dooms_run_scenario [OF assms(2-4)] by (simp add: dooms_bindI1)
  next
    case False
    with Cons have "\<And>rs. dooms w (run_scenarios prefix nm cfg bs rs)" by simp
    then show ?thesis by (simp add: dooms_bindI2)
  qed
qed

lemma dooms_runTest:
  assumes "branches cfg = Some bs" and "br \<in> set bs" and "after br = Some h" and "h \<noteq> []"
    and "\<forall>l. \<exists>msg. respond w l h = Rejected msg"
  shows "dooms w (runTest prefix nm (Some cfg))"
proof -
  from assms(2) obtain b bs' where "bs = b # bs'" by (cases bs) auto
  with assms(1) dooms_run_scenarios [OF assms(2-5), of prefix nm cfg "[]"]
  show ?thesis by (simp add: runTest_def)
qed

lemma dooms_run_suites:
  assumes "t \<in> set suites" and "dooms w (runTest prefix (fst t) (snd t))"
  shows "dooms w (run_suites prefix suites rs)"
  using assms(1)
proof (induction suites arbitrary: rs)
  case Nil
  then show ?case by simp
next
  case (Cons s suites)
  obtain n c where s: "s = (n, c)" by (cases s)
  show ?case
  proof (cases "s = t")
    case True
    with assms(2) s show ?thesis by (simp add: dooms_bindI1)
  next
    case False
    with Cons have "\<And>rs. dooms w (run_suites prefix suites rs)" by simp
    then show ?thesis by (simp add: s dooms_bindI2)
  qed
qed


text \<open>
  C9 fails on the code. The \<open>after\<close> script is awaited outside the \<open>try\<close>, so when
  it exits with an error the rejection leaves \<open>runTest\<close> and the handler: the run
  returns no results at all, although the scenario's \<open>TestResult\<close> had been pushed, and
  the second scenario is never started.
\<close>

theorem after_hook_failure_counterexample:
  "snd (run_handler cleanup_fails [] (integration_test None None None)
         (fresh\<lparr>disk_manifest := Some hook_manifest\<rparr>)) =
     Inl ''Command failed: ./cleanup.sh'' \<and>
   commands (trace (fst (run_handler cleanup_fails [] (integration_test None None None)
         (fresh\<lparr>disk_manifest := Some hook_manifest\<rparr>)))) =
     [''vers commit --tag \"test-baseline-1700000000000\"'',
      ''vers branch --alias test-api-first'', ''vers checkout test-api-first'',
      '' npm test'', ''./cleanup.sh'']"
  by (simp add: handler_eval hook_manifest_def hook_suite_def hook_branch_def
      cleanup_fails_def)

text \<open>
  C9, amended. The scenario's \<open>TestResult\<close> is pushed before the \<open>after\<close> script runs
  and the script does not touch it, but its failure is not caught: whenever a scenario
  of a suite that is run has an \<open>after\<close> script that exits with an error, the run of
  \<open>integration_test\<close> rejects and returns no results, in sequential mode and in
  parallel mode under every schedule.
\<close>

theorem after_hook_failure_rejects_run:
  assumes "disk_manifest st = Some m" and "tests m = Some ts"
    and "(nm, Some cfg) \<in> set (suitesToRun suite_arg ts)"
    and "branches cfg = Some bs" and "br \<in> set bs"
    and "after br = Some h" and "h \<noteq> []"
    and "\<forall>l. \<exists>msg. respond w l h = Rejected msg"
  shows "\<exists>e. snd (run_handler w sched (integration_test suite_arg par branch_prefix) st) = Inl e"
proof -
  let ?prefix = "or_opt_str branch_prefix ''test''"
  let ?t = "clock w (trace st @ [EvReadManifest])"
  let ?c = "''vers commit --tag \"'' @ ?prefix @ ''-baseline-'' @ show_nat ?t @ ''\"''"
  let ?r = "respond w (trace st @ [EvReadManifest, EvNow ?t]) ?c"
  let ?st3 = "st\<lparr>heap_manifest := Some m,
                 trace := trace st @ [EvReadManifest, EvNow ?t, EvExec ViaExecVers ?c ?r]\<rparr>"
  let ?tasks = "map (\<lambda>(nm, cfg). runTest ?prefix nm cfg) (suitesToRun suite_arg ts)"
  let ?h = "if flag par
            then Return (All ?tasks (\<lambda>allResults. Return (test_report (concat allResults))))
            else bind (run_suites ?prefix (suitesToRun suite_arg ts) [])
                   (\<lambda>results. Return (Done (test_report results)))"
  have d: "dooms w (runTest ?prefix nm (Some cfg))"
    using assms(4-8) by (rule dooms_runTest)
  have eq: "run_handler w sched (integration_test suite_arg par branch_prefix) st =
       run_handler w sched ?h ?st3"
    using assms(1,2)
    by (simp add: integration_test_def run_handler_ReadManifest run_handler_Now
        run_handler_Exec execVers_def emit_def Let_def)
  show ?thesis
  proof (cases "flag par")
    case True
    have "runTest ?prefix nm (Some cfg) \<in> set ?tasks"
      using assms(3) by force
    from promise_all_dooms [OF this d, of sched ?st3]
    obtain e where "snd (promise_all w sched ?tasks ?st3) = Inl e" by blast
    with True eq show ?thesis
      by (simp add: run_handler_def split: prod.splits)
  next
    case False
    have "dooms w (run_suites ?prefix (suitesToRun suite_arg ts) [])"
      using assms(3) d by (intro dooms_run_suites [of "(nm, Some cfg)"]) simp_all
    then have "dooms w (bind (run_suites ?prefix (suitesToRun suite_arg ts) [])
                   (\<lambda>results. Return (Done (test_report results)) ::
                      (TestResult list, TestReport tool_result) fork prog))"
      by (rule dooms_bindI1)
    from dooms_run [OF this, of ?st3] obtain e where
      "snd (run w (bind (run_suites ?prefix (suitesToRun suite_arg ts) [])
                   (\<lambda>results. Return (Done (test_report results)) ::
                      (TestResult list, TestReport tool_result) fork prog)) ?st3) = Inl e"
      by blast
    with False eq show ?thesis
      by (simp add: run_handler_def split: prod.splits)
  qed
qed


theorem after_hook_failure_rejects_run_witness:
  "\<exists>e. snd (run_handler cleanup_fails [0, 0] (integration_test None (Some True) None)
              (fresh\<lparr>disk_manifest := Some hook_manifest\<rparr>)) = Inl e"
proof -
  have "disk_manifest (fresh\<lparr>disk_manifest := Some hook_manifest\<rparr>) = Some hook_manifest"
    and "tests hook_manifest = Some [(''api'', hook_suite)]"
    and "(''api'', Some hook_suite) \<in> set (suitesToRun None [(''api'', hook_suite)])"
    and "branches hook_suite =
           Some [hook_branch,
                 \<lparr>tb_name = ''second'', tb_env = None, before = None, after = None\<rparr>]"
    and "hook_branch \<in> set [hook_branch,
                 \<lparr>tb_name = ''second'', tb_env = None, before = None, after = None\<rparr>]"
    and "after hook_branch = Some ''./cleanup.sh''" and "''./cleanup.sh'' \<noteq> []"
    and "\<forall>l. \<exists>msg. respond cleanup_fails l ''./cleanup.sh'' = Rejected msg"
    by (simp_all add: hook_manifest_def hook_suite_def hook_branch_def suitesToRun_def
        cleanup_fails_def)
  then show ?thesis
    by (rule after_hook_failure_rejects_run)
qed

subsection \<open>Branch aliases\<close>

lemma branch_aliases_Nil [simp]: "branch_aliases [] = []"
  by (simp add: branch_aliases_def)

lemma branch_aliases_append [simp]:
  "branch_aliases (xs @ ys) = branch_aliases xs @ branch_aliases ys"
  by (simp add: branch_aliases_def)

lemma branch_aliases_branch:
  "branch_aliases (EvExec ViaExecVers (''vers branch --alias '' @ a) r # evs) =
     a # branch_aliases evs"
  by (simp add: branch_aliases_def is_branch_create_def alias_of_def)

lemma branch_aliases_checkout:
  "branch_aliases (EvExec ViaExecVers (''vers checkout '' @ a) r # evs) = branch_aliases evs"
  by (simp add: branch_aliases_def is_branch_create_def)

lemma branch_aliases_commit:
  "branch_aliases (EvExec ViaExecVers (''vers commit --tag '' @ a) r # evs) = branch_aliases evs"
  by (simp add: branch_aliases_def is_branch_create_def)

lemmas branch_aliases_vers [simp] =
  branch_aliases_branch branch_aliases_checkout branch_aliases_commit
  branch_aliases_branch [simplified] branch_aliases_checkout [simplified]
  branch_aliases_commit [simplified]

lemma branch_aliases_Direct [simp]:
  "branch_aliases (EvExec Direct c r # evs) = branch_aliases evs"
  by (simp add: branch_aliases_def is_branch_create_def)

lemma branch_aliases_Now [simp]: "branch_aliases (EvNow t # evs) = branch_aliases evs"
  by (simp add: branch_aliases_def is_branch_create_def)

lemma branch_aliases_Read [simp]: "branch_aliases (EvReadManifest # evs) = branch_aliases evs"
  by (simp add: branch_aliases_def is_branch_create_def)

lemma wp_run_hook_ok:
  assumes "\<And>h. hk = Some h \<Longrightarrow> \<forall>l. \<exists>out. respond w l h = Resolved out"
  shows "wp w (run_hook hk) (\<lambda>evs r. r = Inr () \<and> branch_aliases evs = [])"
proof (cases hk)
  case None
  then show ?thesis by (simp add: run_hook_def)
next
  case (Some h)
  have "wp w (case respond w l h of Resolved out \<Rightarrow> Return () | Rejected msg \<Rightarrow> Throw msg)
          (\<lambda>evs r. r = Inr () \<and> branch_aliases (EvExec Direct h (respond w l h) # evs) = [])"
    for l
  proof -
    from assms [OF Some] obtain out where "respond w l h = Resolved out" by blast
    then show ?thesis by simp
  qed
  with Some show ?thesis
    by (simp add: run_hook_def execAsync_def)
qed

lemma wp_timed_test:
  "wp w (timed_test nm bn cmd)
     (\<lambda>evs r. branch_aliases evs = [] \<and>
              (\<exists>res. r = Inr res \<and> suite res = nm \<and> branch res = bn \<and>
                     (tr_status res = Passed \<or> tr_status res = Failed)))"
  by (simp add: timed_test_def execAsync_def split: resp.splits)


lemma wp_run_scenario_ok:
  assumes "\<And>h. before br = Some h \<or> after br = Some h \<Longrightarrow>
             \<forall>l. \<exists>out. respond w l h = Resolved out"
  shows "wp w (run_scenario prefix nm cfg br rs)
     (\<lambda>evs r. branch_aliases evs = [prefix @ ''-'' @ nm @ ''-'' @ tb_name br] \<and>
              (\<exists>res. r = Inr (rs @ [res])))"
proof -
  let ?al = "prefix @ ''-'' @ nm @ ''-'' @ tb_name br"
  let ?Q = "\<lambda>evs r. branch_aliases evs = [] \<and> (\<exists>res. r = Inr (rs @ [res]))"
  have after: "wp w (bind (run_hook (after br)) (\<lambda>_. Return (rs @ [res])))
                 (\<lambda>evs r. branch_aliases evs = [] \<and> r = Inr (rs @ [res]))" for res
    by (rule wp_bindI [OF wp_run_hook_ok]) (use assms in auto)
  have test: "wp w (bind (timed_test nm (tb_name br) cmd)
                 (\<lambda>result. bind (run_hook (after br)) (\<lambda>_. Return (rs @ [result])))) ?Q" for cmd
  proof (rule wp_bindI [OF wp_timed_test])
    fix evs and v :: TestResult
    assume "branch_aliases evs = [] \<and>
        (\<exists>res. Inr v = Inr res \<and> suite res = nm \<and> branch res = tb_name br \<and>
               (tr_status res = Passed \<or> tr_status res = Failed))"
    then have e: "branch_aliases evs = []" by simp
    show "wp w (bind (run_hook (after br)) (\<lambda>_. Return (rs @ [v])))
            (\<lambda>evs'. ?Q (evs @ evs'))"
      by (rule wp_mono [OF after [of v]]) (simp add: e)
  qed auto
  have before: "wp w (bind (run_hook (before br)) (\<lambda>_.
      bind (timed_test nm (tb_name br) cmd)
        (\<lambda>result. bind (run_hook (after br)) (\<lambda>_. Return (rs @ [result]))))) ?Q" for cmd
  proof (rule wp_bindI [OF wp_run_hook_ok])
    fix evs and v :: unit
    assume "Inr v = Inr () \<and> branch_aliases evs = []"
    then have e: "branch_aliases evs = []" by simp
    show "wp w (bind (timed_test nm (tb_name br) cmd)
                 (\<lambda>result. bind (run_hook (after br)) (\<lambda>_. Return (rs @ [result]))))
            (\<lambda>evs'. ?Q (evs @ evs'))"
      by (rule wp_mono [OF test [of cmd]]) (simp add: e)
  qed (use assms in auto)
  show ?thesis
    unfolding run_scenario_def Let_def execVers_def wp.simps
    by (intro allI wp_mono [OF before]) simp
qed

lemma wp_run_scenarios_ok:
  assumes "\<And>br h. br \<in> set bs \<Longrightarrow> before br = Some h \<or> after br = Some h \<Longrightarrow>
             \<forall>l. \<exists>out. respond w l h = Resolved out"
  shows "wp w (run_scenarios prefix nm cfg bs rs)
     (\<lambda>evs r. branch_aliases evs = map (\<lambda>br. prefix @ ''-'' @ nm @ ''-'' @ tb_name br) bs \<and>
              (\<exists>rs'. r = Inr (rs @ rs') \<and> length rs' = length bs))"
  using assms
proof (induction bs arbitrary: rs)
  case Nil
  then show ?case by simp
next
  case (Cons b bs)
  have one: "wp w (run_scenario prefix nm cfg b rs)
     (\<lambda>evs r. branch_aliases evs = [prefix @ ''-'' @ nm @ ''-'' @ tb_name b] \<and>
              (\<exists>res. r = Inr (rs @ [res])))"
    by (rule wp_run_scenario_ok) (use Cons.prems in auto)
  have rest: "wp w (run_scenarios prefix nm cfg bs rs1)
     (\<lambda>evs r. branch_aliases evs = map (\<lambda>br. prefix @ ''-'' @ nm @ ''-'' @ tb_name br) bs \<and>
              (\<exists>rs'. r = Inr (rs1 @ rs') \<and> length rs' = length bs))" for rs1
    by (rule Cons.IH) (use Cons.prems in auto)
  show ?case
    unfolding run_scenarios.simps
  proof (rule wp_bindI [OF one])
    fix evs and v :: "TestResult list"
    assume "branch_aliases evs = [prefix @ ''-'' @ nm @ ''-'' @ tb_name b] \<and>
            (\<exists>res. Inr v = Inr (rs @ [res]))"
    then obtain res where e: "branch_aliases evs = [prefix @ ''-'' @ nm @ ''-'' @ tb_name b]"
      and v: "v = rs @ [res]" by auto
    show "wp w (run_scenarios prefix nm cfg bs v)
       (\<lambda>evs' r. branch_aliases (evs @ evs') =
            map (\<lambda>br. prefix @ ''-'' @ nm @ ''-'' @ tb_name br) (b # bs) \<and>
          (\<exists>rs'. r = Inr (rs @ rs') \<and> length rs' = length (b # bs)))"
      by (rule wp_mono [OF rest [of v]]) (auto simp: e v)
  qed auto
qed

lemma wp_runTest_ok:
  assumes "hooks_resolve w (Some cfg)"
  shows "wp w (runTest prefix nm (Some cfg))
     (\<lambda>evs r. branch_aliases evs = suite_aliases prefix nm (Some cfg) \<and>
              (\<exists>rs. r = Inr rs \<and> length rs = length (suite_aliases prefix nm (Some cfg))))"
proof -
  have single: "wp w
     (execVers (''branch --alias '' @ prefix @ ''-'' @ nm) (\<lambda>_.
        execVers (''checkout '' @ prefix @ ''-'' @ nm) (\<lambda>_.
          bind (timed_test nm (prefix @ ''-'' @ nm) (command cfg))
            (\<lambda>result. Return [result]))))
     (\<lambda>evs r. branch_aliases evs = [prefix @ ''-'' @ nm] \<and>
              (\<exists>rs. r = Inr rs \<and> length rs = 1))"
    unfolding execVers_def wp.simps
    by (intro allI wp_bindI [OF wp_timed_test]) auto
  show ?thesis
  proof (cases "branches cfg")
    case None
    with single show ?thesis
      by (simp add: runTest_def suite_aliases_def Let_def)
  next
    case (Some bs)
    show ?thesis
    proof (cases bs)
      case Nil
      with Some single show ?thesis
        by (simp add: runTest_def suite_aliases_def Let_def)
    next
      case (Cons b bs')
      have "wp w (run_scenarios prefix nm cfg bs [])
        (\<lambda>evs r. branch_aliases evs = map (\<lambda>br. prefix @ ''-'' @ nm @ ''-'' @ tb_name br) bs \<and>
              (\<exists>rs'. r = Inr ([] @ rs') \<and> length rs' = length bs))"
        by (rule wp_run_scenarios_ok) (use assms Some in \<open>auto simp: hooks_resolve_def\<close>)
      with Some Cons show ?thesis
        by (simp add: runTest_def suite_aliases_def)
    qed
  qed
qed


lemma wp_run_suites_ok:
  assumes "\<forall>(nm, cfg) \<in> set suites. cfg \<noteq> None \<and> hooks_resolve w cfg"
  shows "wp w (run_suites prefix suites rs)
     (\<lambda>evs r. branch_aliases evs = run_aliases prefix suites \<and>
              (\<exists>rs'. r = Inr (rs @ rs') \<and> length rs' = length (run_aliases prefix suites)))"
  using assms
proof (induction suites arbitrary: rs)
  case Nil
  then show ?case by (simp add: run_aliases_def)
next
  case (Cons s suites)
  obtain nm c where s: "s = (nm, Some c)" and h: "hooks_resolve w (Some c)"
    using Cons.prems by (cases s) auto
  have rest: "wp w (run_suites prefix suites rs1)
     (\<lambda>evs r. branch_aliases evs = run_aliases prefix suites \<and>
              (\<exists>rs'. r = Inr (rs1 @ rs') \<and> length rs' = length (run_aliases prefix suites)))"
    for rs1
    by (rule Cons.IH) (use Cons.prems in auto)
  show ?case
    unfolding s run_suites.simps
  proof (rule wp_bindI [OF wp_runTest_ok [OF h]])
    fix evs and v :: "TestResult list"
    assume "branch_aliases evs = suite_aliases prefix nm (Some c) \<and>
       (\<exists>rs. Inr v = Inr rs \<and> length rs = length (suite_aliases prefix nm (Some c)))"
    then have e: "branch_aliases evs = suite_aliases prefix nm (Some c)"
      and l: "length v = length (suite_aliases prefix nm (Some c))"
      by auto
    show "wp w (run_suites prefix suites (rs @ v))
       (\<lambda>evs' r. branch_aliases (evs @ evs') = run_aliases prefix ((nm, Some c) # suites) \<and>
          (\<exists>rs'. r = Inr (rs @ rs') \<and>
             length rs' = length (run_aliases prefix ((nm, Some c) # suites))))"
      by (rule wp_mono [OF rest [of "rs @ v"]]) (auto simp: e l run_aliases_def)
  qed auto
qed

lemma mset_branch_aliases_cong:
  "mset xs = mset ys \<Longrightarrow> mset (branch_aliases xs) = mset (branch_aliases ys)"
proof -
  assume "mset xs = mset ys"
  then have "image_mset alias_of (filter_mset is_branch_create (mset xs)) =
             image_mset alias_of (filter_mset is_branch_create (mset ys))"
    by simp
  then show ?thesis by (simp add: branch_aliases_def)
qed

lemma branch_aliases_concat:
  "branch_aliases (concat evss) = concat (map branch_aliases evss)"
  by (induction evss) simp_all

lemma promise_all_runTest_ok:
  assumes "\<forall>(nm, cfg) \<in> set suites. cfg \<noteq> None \<and> hooks_resolve w cfg"
  shows "\<exists>st' vs new.
     promise_all w sched (map (\<lambda>(nm, cfg). runTest prefix nm cfg) suites) st = (st', Inr vs) \<and>
     trace st' = trace st @ new \<and>
     mset (branch_aliases new) = mset (run_aliases prefix suites) \<and>
     length (concat vs) = length (run_aliases prefix suites)"
proof -
  let ?tasks = "map (\<lambda>(nm, cfg). runTest prefix nm cfg) suites"
  let ?F = "\<lambda>(nm, cfg) evs (r :: string + TestResult list).
       branch_aliases evs = suite_aliases prefix nm cfg \<and>
       (\<exists>rs. r = Inr rs \<and> length rs = length (suite_aliases prefix nm cfg))"
  have "list_all2 (wp w) ?tasks (map ?F suites)"
    unfolding list_all2_conv_all_nth
  proof (intro conjI allI impI)
    fix i assume "i < length ?tasks"
    then have i: "i < length suites" by simp
    obtain nm c where s: "suites ! i = (nm, Some c)" and h: "hooks_resolve w (Some c)"
      using assms i nth_mem [OF i] by (cases "suites ! i") fastforce
    from wp_runTest_ok [OF h, of prefix nm] i s
    show "wp w (?tasks ! i) (map ?F suites ! i)" by simp
  qed simp
  from promise_all_wp [OF this, of sched st] obtain st' res evss rs new where
    p: "promise_all w sched ?tasks st = (st', res)"
    and le: "length evss = length ?tasks"
    and lr: "length rs = length ?tasks"
    and q: "\<forall>i<length ?tasks. (map ?F suites ! i) (evss ! i) (rs ! i)"
    and t: "trace st' = trace st @ new" and m: "mset new = mset (concat evss)"
    and r: "case res of Inr vs \<Rightarrow> rs = map Inr vs | Inl e \<Rightarrow> Inl e \<in> set rs"
    by blast
  have qi: "?F (suites ! i) (evss ! i) (rs ! i)" if "i < length suites" for i
    using q that by simp
  have noerr: "Inl e \<notin> set rs" for e
  proof
    assume "Inl e \<in> set rs"
    then obtain i where i: "i < length suites" and "rs ! i = Inl e"
      using lr by (auto simp: in_set_conv_nth)
    with qi [OF i] show False by (cases "suites ! i") auto
  qed
  with r obtain vs where res: "res = Inr vs" and rs: "rs = map Inr vs"
    by (cases res) auto
  have lv: "length vs = length suites" using lr rs by simp
  have "list_all2 (\<lambda>s evs. branch_aliases evs = (case s of (nm, cfg) \<Rightarrow> suite_aliases prefix nm cfg))
          suites evss"
    unfolding list_all2_conv_all_nth
  proof (intro conjI allI impI)
    fix i assume i: "i < length suites"
    from qi [OF i] show "branch_aliases (evss ! i) =
        (case suites ! i of (nm, cfg) \<Rightarrow> suite_aliases prefix nm cfg)"
      by (cases "suites ! i") auto
  qed (use le in simp)
  then have "concat (map branch_aliases evss) = run_aliases prefix suites"
    unfolding run_aliases_def by (induction rule: list_all2_induct) auto
  then have a: "mset (branch_aliases new) = mset (run_aliases prefix suites)"
    using mset_branch_aliases_cong [OF m] by (simp add: branch_aliases_concat)
  have "list_all2 (\<lambda>s v. length v = length (case s of (nm, cfg) \<Rightarrow> suite_aliases prefix nm cfg))
          suites vs"
    unfolding list_all2_conv_all_nth
  proof (intro conjI allI impI)
    fix i assume i: "i < length suites"
    from qi [OF i] rs lv i show "length (vs ! i) =
        length (case suites ! i of (nm, cfg) \<Rightarrow> suite_aliases prefix nm cfg)"
      by (cases "suites ! i") auto
  qed (use lv in simp)
  then have "length (concat vs) = length (run_aliases prefix suites)"
    unfolding run_aliases_def by (induction rule: list_all2_induct) auto
  with p res t a show ?thesis by blast
qed


text \<open>
  C5 fails on the code. Two scenarios of one suite with the same name derive the same
  alias; the run issues \<open>vers branch --alias test-api-smoke\<close> twice, ignores what the
  platform answers, runs both scenarios and reports two results. No error is raised.
\<close>

theorem alias_collision_counterexample:
  "snd (run_handler quiet [] (integration_test None None None)
         (fresh\<lparr>disk_manifest := Some dup_manifest\<rparr>)) =
     Inr (Json \<lparr>rep_total = 2, rep_passed = 2, rep_failed = 0,
                 rep_results =
                   [\<lparr>suite = ''api'', branch = ''smoke'', tr_status = Passed,
                     duration_ms = 0, tr_output = Some [], tr_error = None\<rparr>,
                    \<lparr>suite = ''api'', branch = ''smoke'', tr_status = Passed,
                     duration_ms = 0, tr_output = Some [], tr_error = None\<rparr>]\<rparr>) \<and>
   commands (trace (fst (run_handler quiet [] (integration_test None None None)
         (fresh\<lparr>disk_manifest := Some dup_manifest\<rparr>)))) =
     [''vers commit --tag \"test-baseline-1700000000000\"'',
      ''vers branch --alias test-api-smoke'', ''vers checkout test-api-smoke'',
      ''MODE=fast npm test'',
      ''vers branch --alias test-api-smoke'', ''vers checkout test-api-smoke'',
      ''MODE=full npm test'']"
  by (simp add: handler_eval dup_manifest_def dup_suite_def)

text \<open>
  C5, amended. The handler has no check of alias uniqueness. For every run in which the
  suites to run exist and no \<open>before\<close> or \<open>after\<close> script exits with an error, the
  run returns its report; the branch creations it issues are exactly one per scenario,
  each with the alias \<open>${prefix}-${suite}-${scenario}\<close> (or \<open>${prefix}-${suite}\<close> for
  a suite without scenarios), aliases that coincide being issued once per scenario; and
  the report has one result per scenario. In sequential mode the branch creations are
  issued in the order of the scenarios; in parallel mode, under every schedule, they are
  the same up to order.
\<close>

theorem alias_collision_not_detected:
  assumes "disk_manifest st = Some m" and "tests m = Some ts"
    and "\<forall>(nm, cfg) \<in> set (suitesToRun suite_arg ts). cfg \<noteq> None \<and> hooks_resolve w cfg"
  shows "\<exists>st' rep new.
     run_handler w sched (integration_test suite_arg par branch_prefix) st =
       (st', Inr (Json rep)) \<and>
     trace st' = trace st @ new \<and>
     mset (branch_aliases new) =
       mset (run_aliases (or_opt_str branch_prefix ''test'') (suitesToRun suite_arg ts)) \<and>
     (\<not> flag par \<longrightarrow>
        branch_aliases new =
          run_aliases (or_opt_str branch_prefix ''test'') (suitesToRun suite_arg ts)) \<and>
     rep_total rep =
       length (run_aliases (or_opt_str branch_prefix ''test'') (suitesToRun suite_arg ts))"
proof -
  let ?prefix = "or_opt_str branch_prefix ''test''"
  let ?suites = "suitesToRun suite_arg ts"
  let ?t = "clock w (trace st @ [EvReadManifest])"
  let ?c = "''vers commit --tag \"'' @ ?prefix @ ''-baseline-'' @ show_nat ?t @ ''\"''"
  let ?r = "respond w (trace st @ [EvReadManifest, EvNow ?t]) ?c"
  let ?pre = "[EvReadManifest, EvNow ?t, EvExec ViaExecVers ?c ?r]"
  let ?st3 = "st\<lparr>heap_manifest := Some m, trace := trace st @ ?pre\<rparr>"
  let ?tasks = "map (\<lambda>(nm, cfg). runTest ?prefix nm cfg) ?suites"
  let ?h = "if flag par
            then Return (All ?tasks (\<lambda>allResults. Return (test_report (concat allResults))))
            else bind (run_suites ?prefix ?suites [])
                   (\<lambda>results. Return (Done (test_report results)))"
  have eq: "run_handler w sched (integration_test suite_arg par branch_prefix) st =
       run_handler w sched ?h ?st3"
    using assms(1,2)
    by (simp add: integration_test_def run_handler_ReadManifest run_handler_Now
        run_handler_Exec execVers_def emit_def Let_def)
  have pre: "branch_aliases (?pre @ evs) = branch_aliases evs" for evs
    by simp
  show ?thesis
  proof (cases "flag par")
    case True
    from promise_all_runTest_ok [OF assms(3), of sched ?prefix ?st3]
    obtain st' vs new where
      p: "promise_all w sched ?tasks ?st3 = (st', Inr vs)"
      and t: "trace st' = trace ?st3 @ new"
      and a: "mset (branch_aliases new) = mset (run_aliases ?prefix ?suites)"
      and l: "length (concat vs) = length (run_aliases ?prefix ?suites)"
      by blast
    have "run_handler w sched ?h ?st3 = (st', Inr (test_report (concat vs)))"
      using True p by (simp add: run_handler_def)
    moreover have "trace st' = trace st @ (?pre @ new)" using t by simp
    moreover have "mset (branch_aliases (?pre @ new)) = mset (run_aliases ?prefix ?suites)"
      using a by (simp only: pre)
    ultimately show ?thesis
      using True l eq unfolding test_report_def
      by (intro exI [of _ st'] exI [of _ "?pre @ new"] exI) auto
  next
    case False
    from wp_run [OF wp_run_suites_ok [OF assms(3), of ?prefix "[]"], of ?st3]
    obtain evs rs where
      t: "trace (fst (run w (run_suites ?prefix ?suites []) ?st3)) = trace ?st3 @ evs"
      and a: "branch_aliases evs = run_aliases ?prefix ?suites"
      and r: "snd (run w (run_suites ?prefix ?suites []) ?st3) = Inr rs"
      and l: "length rs = length (run_aliases ?prefix ?suites)"
      by auto
    obtain st' where run: "run w (run_suites ?prefix ?suites []) ?st3 = (st', Inr rs)"
      using r by (cases "run w (run_suites ?prefix ?suites []) ?st3") auto
    have "run_handler w sched ?h ?st3 = (st', Inr (test_report rs))"
      using False run by (simp add: run_handler_def run_bind)
    moreover have "trace st' = trace st @ (?pre @ evs)" using t run by simp
    moreover have "branch_aliases (?pre @ evs) = run_aliases ?prefix ?suites"
      using a by (simp only: pre)
    ultimately show ?thesis
      using l eq unfolding test_report_def
      by (intro exI [of _ st'] exI [of _ "?pre @ evs"] exI) auto
  qed
qed


theorem alias_collision_not_detected_witness:
  "\<exists>st' rep new.
     run_handler quiet [0, 0, 0] (integration_test None (Some True) None)
       (fresh\<lparr>disk_manifest := Some dup_manifest\<rparr>) = (st', Inr (Json rep)) \<and>
     trace st' = new \<and>
     mset (branch_aliases new) = mset [''test-api-smoke'', ''test-api-smoke''] \<and>
     rep_total rep = 2"
proof -
  have h1: "disk_manifest (fresh\<lparr>disk_manifest := Some dup_manifest\<rparr>) = Some dup_manifest"
    by simp
  have h2: "tests dup_manifest = Some [(''api'', dup_suite)]"
    by (simp add: dup_manifest_def)
  have h3: "\<forall>(nm, cfg) \<in> set (suitesToRun None [(''api'', dup_suite)]).
              cfg \<noteq> None \<and> hooks_resolve quiet cfg"
    by (simp add: suitesToRun_def hooks_resolve_def quiet_def)
  have a: "run_aliases (or_opt_str None ''test'') (suitesToRun None [(''api'', dup_suite)]) =
             [''test-api-smoke'', ''test-api-smoke'']"
    by (simp add: run_aliases_def suite_aliases_def suitesToRun_def dup_suite_def
        or_opt_str_def)
  from alias_collision_not_detected [OF h1 h2 h3, of "[0, 0, 0]" "Some True" None]
  show ?thesis
    unfolding a by (auto simp: fresh_def)
qed

section \<open>The version matrix run\<close>

lemmas matrix_eval = handler_eval matrix_manifest_def mk_service_def tests_fail_def
  runCombination_def matrix_report_def generate.simps filtered_out_def set_version_def
  show_int_def

lemma branch_aliases_restart [simp]:
  "branch_aliases (EvExec ViaExecVers ''vers service restart --all'' r # evs) =
     branch_aliases evs"
  by (simp add: branch_aliases_def is_branch_create_def)

lemma wp_runCombination:
  "wp w (runCombination cmb)
     (\<lambda>evs r. branch_aliases evs = [matrix_alias cmb] \<and>
              (\<forall>v. r = Inr v \<longrightarrow> combination v = cmb \<and>
                     (mr_status v = Passed \<or> mr_status v = Failed)))"
  by (simp add: runCombination_def execVers_def execAsync_def matrix_alias_def Let_def
      split: resp.splits)

lemma wp_loop_body:
  "wp w (try_catch
           (bind (runCombination cmb)
              (\<lambda>result. Return (result, mr_status result = Failed \<and> \<not> cont)))
           (\<lambda>msg. Return (\<lparr>combination = cmb, mr_branch = None, mr_status = Error,
                             mr_output = None, mr_error = Some msg\<rparr>, \<not> cont)))
     (\<lambda>evs r. branch_aliases evs = [matrix_alias cmb] \<and>
              (\<exists>res brk. r = Inr (res, brk) \<and> combination res = cmb \<and>
                 (brk \<longleftrightarrow> mr_status res \<noteq> Passed \<and> \<not> cont) \<and>
                 (mr_status res = Passed \<or> mr_status res = Failed \<or> mr_status res = Error)))"
proof -
  have "wp w (bind (runCombination cmb)
              (\<lambda>result. Return (result, mr_status result = Failed \<and> \<not> cont)))
         (\<lambda>evs r. branch_aliases evs = [matrix_alias cmb] \<and>
              (\<forall>v. r = Inr v \<longrightarrow> (\<exists>res. v = (res, mr_status res = Failed \<and> \<not> cont) \<and>
                   combination res = cmb \<and>
                   (mr_status res = Passed \<or> mr_status res = Failed))))"
    by (rule wp_bindI [OF wp_runCombination]) auto
  then show ?thesis
    by (rule wp_try_catchI) auto
qed

lemma loop_results_Nil: "loop_results cont [] []"
  by (simp add: loop_results_def)

lemma loop_results_break:
  "combination res = cmb \<Longrightarrow> \<not> cont \<Longrightarrow>
   mr_status res = Failed \<or> mr_status res = Error \<Longrightarrow>
   loop_results cont (cmb # combos) [res]"
  by (auto simp: loop_results_def)

lemma loop_results_continue:
  assumes "combination res = cmb" and "cont \<or> mr_status res = Passed"
    and "loop_results cont combos rs"
  shows "loop_results cont (cmb # combos) (res # rs)"
proof -
  have "\<forall>i. Suc i < length (res # rs) \<longrightarrow> mr_status ((res # rs) ! i) = Passed" if "\<not> cont"
  proof (intro allI impI)
    fix i assume i: "Suc i < length (res # rs)"
    show "mr_status ((res # rs) ! i) = Passed"
    proof (cases i)
      case 0
      with assms(2) that show ?thesis by simp
    next
      case (Suc j)
      with i assms(3) that show ?thesis by (simp add: loop_results_def)
    qed
  qed
  with assms show ?thesis
    by (auto simp: loop_results_def)
qed

lemma wp_matrix_loop:
  "wp w (matrix_loop cont combos results)
     (\<lambda>evs r. \<exists>rs. r = Inr (results @ rs) \<and> loop_results cont combos rs \<and>
                   branch_aliases evs = map (\<lambda>x. matrix_alias (combination x)) rs)"
proof (induction combos arbitrary: results)
  case Nil
  then show ?case by (simp add: loop_results_Nil)
next
  case (Cons cmb combos)
  show ?case
    unfolding matrix_loop.simps
  proof (rule wp_bindI [OF wp_loop_body])
    fix evs and v :: "MatrixResult \<times> bool"
    assume "branch_aliases evs = [matrix_alias cmb] \<and>
         (\<exists>res brk. Inr v = Inr (res, brk) \<and> combination res = cmb \<and>
            (brk \<longleftrightarrow> mr_status res \<noteq> Passed \<and> \<not> cont) \<and>
            (mr_status res = Passed \<or> mr_status res = Failed \<or> mr_status res = Error))"
    then obtain res brk where e: "branch_aliases evs = [matrix_alias cmb]"
      and v: "v = (res, brk)" and c: "combination res = cmb"
      and b: "brk \<longleftrightarrow> mr_status res \<noteq> Passed \<and> \<not> cont"
      and s: "mr_status res = Passed \<or> mr_status res = Failed \<or> mr_status res = Error"
      by auto
    show "wp w (case v of (result, brk) \<Rightarrow>
                  if brk then Return (results @ [result])
                  else matrix_loop cont combos (results @ [result]))
            (\<lambda>evs' r. \<exists>rs. r = Inr (results @ rs) \<and> loop_results cont (cmb # combos) rs \<and>
                   branch_aliases (evs @ evs') = map (\<lambda>x. matrix_alias (combination x)) rs)"
    proof (cases brk)
      case True
      with b s have "\<not> cont" and "mr_status res = Failed \<or> mr_status res = Error"
        by auto
      from loop_results_break [OF c this, of combos] True show ?thesis
        by (auto simp: v e c intro!: exI [of _ "[res]"])
    next
      case False
      with b have k: "cont \<or> mr_status res = Passed" by auto
      have "wp w (matrix_loop cont combos (results @ [res]))
          (\<lambda>evs' r. \<exists>rs. r = Inr (results @ rs) \<and> loop_results cont (cmb # combos) rs \<and>
                   branch_aliases (evs @ evs') = map (\<lambda>x. matrix_alias (combination x)) rs)"
      proof (rule wp_mono [OF Cons.IH [of "results @ [res]"]])
        fix evs' and r :: "string + MatrixResult list"
        assume "\<exists>rs. r = Inr ((results @ [res]) @ rs) \<and> loop_results cont combos rs \<and>
                   branch_aliases evs' = map (\<lambda>x. matrix_alias (combination x)) rs"
        then obtain rs where r: "r = Inr (results @ res # rs)"
          and l: "loop_results cont combos rs"
          and a: "branch_aliases evs' = map (\<lambda>x. matrix_alias (combination x)) rs"
          by auto
        from loop_results_continue [OF c k l] r a e c
        show "\<exists>rs. r = Inr (results @ rs) \<and> loop_results cont (cmb # combos) rs \<and>
                   branch_aliases (evs @ evs') = map (\<lambda>x. matrix_alias (combination x)) rs"
          by (intro exI [of _ "res # rs"]) simp
      qed
      with False show ?thesis by (simp add: v)
    qed
  qed auto
qed


lemma integration_matrix_unfold:
  assumes "disk_manifest st = Some m" and "matrix m = Some mx"
  shows "run_handler w sched (integration_matrix flt par cof) st =
     run_handler w sched
       (if flag par
        then Return (All (map runCombination (snd (generate mx flt 0 ([], []))))
               (\<lambda>allResults.
                  Return (matrix_report mx (snd (generate mx flt 0 ([], []))) allResults)))
        else bind (matrix_loop (flag cof) (snd (generate mx flt 0 ([], []))) [])
               (\<lambda>results.
                  Return (Done (matrix_report mx (snd (generate mx flt 0 ([], []))) results))))
       (st\<lparr>heap_manifest := Some m, trace := trace st @ [EvReadManifest]\<rparr>)"
  using assms
  by (simp add: integration_matrix_def run_handler_ReadManifest emit_def Let_def)

lemma promise_all_runCombination:
  "\<exists>st' res new.
     promise_all w sched (map runCombination combos) st = (st', res) \<and>
     trace st' = trace st @ new \<and>
     mset (branch_aliases new) = mset (map matrix_alias combos) \<and>
     (\<forall>vs. res = Inr vs \<longrightarrow> map combination vs = combos)"
proof -
  let ?tasks = "map runCombination combos"
  let ?F = "\<lambda>cmb evs (r :: string + MatrixResult).
       branch_aliases evs = [matrix_alias cmb] \<and>
       (\<forall>v. r = Inr v \<longrightarrow> combination v = cmb \<and>
              (mr_status v = Passed \<or> mr_status v = Failed))"
  have "list_all2 (wp w) ?tasks (map ?F combos)"
    by (simp add: list_all2_conv_all_nth wp_runCombination)
  from promise_all_wp [OF this, of sched st] obtain st' res evss rs new where
    p: "promise_all w sched ?tasks st = (st', res)"
    and le: "length evss = length ?tasks"
    and lr: "length rs = length ?tasks"
    and q: "\<forall>i<length ?tasks. (map ?F combos ! i) (evss ! i) (rs ! i)"
    and t: "trace st' = trace st @ new" and m: "mset new = mset (concat evss)"
    and r: "case res of Inr vs \<Rightarrow> rs = map Inr vs | Inl e \<Rightarrow> Inl e \<in> set rs"
    by blast
  have qi: "?F (combos ! i) (evss ! i) (rs ! i)" if "i < length combos" for i
    using q that by simp
  have "list_all2 (\<lambda>cmb evs. branch_aliases evs = [matrix_alias cmb]) combos evss"
    using qi le by (simp add: list_all2_conv_all_nth)
  then have "concat (map branch_aliases evss) = map matrix_alias combos"
    by (induction rule: list_all2_induct) auto
  then have a: "mset (branch_aliases new) = mset (map matrix_alias combos)"
    using mset_branch_aliases_cong [OF m] by (simp add: branch_aliases_concat)
  have "map combination vs = combos" if "res = Inr vs" for vs
  proof (rule nth_equalityI)
    from that r have rs: "rs = map Inr vs" by simp
    then show "length (map combination vs) = length combos" using lr by simp
    fix i assume "i < length (map combination vs)"
    then have i: "i < length combos" "i < length vs" using lr rs by simp_all
    from qi [OF i(1)] rs i show "map combination vs ! i = combos ! i" by simp
  qed
  with p t a show ?thesis by blast
qed


text \<open>
  C8 fails on the code in parallel mode. With \<open>parallel = true\<close> and
  \<open>continue_on_failure\<close> left at its default, both combinations are run and both are
  reported, although the first one has status \<open>failed\<close>: the parallel branch does not
  look at \<open>continue_on_failure\<close>.
\<close>

theorem matrix_parallel_counterexample:
  "snd (run_handler tests_fail [0, 1, 0, 1, 0, 1, 0, 1]
         (integration_matrix None (Some True) None)
         (fresh\<lparr>disk_manifest := Some matrix_manifest\<rparr>)) =
     Inr (Json \<lparr>rep_matrix = [(''postgres'', [Num 14, Num 16])],
                 total_combinations = 2, mx_passed = 0, mx_failed = 2,
                 mx_results =
                   [\<lparr>combination = [(''postgres'', Num 14)],
                     mr_branch = Some ''matrix-postgres14'', mr_status = Failed,
                     mr_output = Some ''1 failing'', mr_error = None\<rparr>,
                    \<lparr>combination = [(''postgres'', Num 16)],
                     mr_branch = Some ''matrix-postgres16'', mr_status = Failed,
                     mr_output = Some ''1 failing'', mr_error = None\<rparr>]\<rparr>) \<and>
   commands (trace (fst (run_handler tests_fail [0, 1, 0, 1, 0, 1, 0, 1]
         (integration_matrix None (Some True) None)
         (fresh\<lparr>disk_manifest := Some matrix_manifest\<rparr>)))) =
     [''vers branch --alias matrix-postgres14'', ''vers branch --alias matrix-postgres16'',
      ''vers checkout matrix-postgres14'', ''vers checkout matrix-postgres16'',
      ''vers service restart --all'', ''vers service restart --all'',
      ''npm test'', ''npm test'']"
  by (simp add: matrix_eval)

text \<open>
  C8, amended. In sequential mode the handler always answers with its report, and the
  results are those of an initial segment of the generated combinations: with
  \<open>continue_on_failure\<close> set, of all of them; without it, of the combinations up to and
  including the first whose status is \<open>failed\<close> or \<open>error\<close>, every result before that
  one being \<open>passed\<close>. Branches were created for exactly the combinations in the
  results, in that order, so no combination after the first failure was attempted.
  In parallel mode, under every schedule and whatever \<open>continue_on_failure\<close> is, a
  branch is created for every generated combination, and whenever the handler answers
  with a report, the report has the results of all generated combinations in order.
\<close>

theorem matrix_short_circuit:
  assumes "disk_manifest st = Some m" and "matrix m = Some mx"
  shows "(\<not> flag par \<longrightarrow>
            (\<exists>st' rep new.
               run_handler w sched (integration_matrix flt par cof) st = (st', Inr (Json rep)) \<and>
               trace st' = trace st @ new \<and>
               loop_results (flag cof) (snd (generate mx flt 0 ([], []))) (mx_results rep) \<and>
               branch_aliases new = map (\<lambda>x. matrix_alias (combination x)) (mx_results rep))) \<and>
         (flag par \<longrightarrow>
            (\<exists>st' res new.
               run_handler w sched (integration_matrix flt par cof) st = (st', res) \<and>
               trace st' = trace st @ new \<and>
               mset (branch_aliases new) =
                 mset (map matrix_alias (snd (generate mx flt 0 ([], [])))) \<and>
               (\<forall>answer. res = Inr answer \<longrightarrow>
                  (\<exists>rep. answer = Json rep \<and>
                     map combination (mx_results rep) = snd (generate mx flt 0 ([], []))))))"
proof -
  let ?combos = "snd (generate mx flt 0 ([], []))"
  let ?st1 = "st\<lparr>heap_manifest := Some m, trace := trace st @ [EvReadManifest]\<rparr>"
  note eq = integration_matrix_unfold [OF assms, of w sched flt par cof]
  have seq: "\<exists>st' rep new.
       run_handler w sched (integration_matrix flt par cof) st = (st', Inr (Json rep)) \<and>
       trace st' = trace st @ new \<and>
       loop_results (flag cof) ?combos (mx_results rep) \<and>
       branch_aliases new = map (\<lambda>x. matrix_alias (combination x)) (mx_results rep)"
    if np: "\<not> flag par"
  proof -
    from wp_run [OF wp_matrix_loop [of w "flag cof" ?combos "[]"], of ?st1]
    obtain evs rs where
      t: "trace (fst (run w (matrix_loop (flag cof) ?combos []) ?st1)) = trace ?st1 @ evs"
      and r: "snd (run w (matrix_loop (flag cof) ?combos []) ?st1) = Inr rs"
      and l: "loop_results (flag cof) ?combos rs"
      and a: "branch_aliases evs = map (\<lambda>x. matrix_alias (combination x)) rs"
      by auto
    obtain st' where run: "run w (matrix_loop (flag cof) ?combos []) ?st1 = (st', Inr rs)"
      using r by (cases "run w (matrix_loop (flag cof) ?combos []) ?st1") auto
    have "run_handler w sched (integration_matrix flt par cof) st =
            (st', Inr (matrix_report mx ?combos rs))"
      using np run unfolding eq by (simp add: run_handler_def run_bind)
    moreover have "trace st' = trace st @ (EvReadManifest # evs)" using t run by simp
    moreover have "branch_aliases (EvReadManifest # evs) =
        map (\<lambda>x. matrix_alias (combination x)) rs"
      using a by simp
    ultimately show ?thesis
      using l unfolding matrix_report_def
      by (intro exI [of _ st'] exI [of _ "EvReadManifest # evs"] exI) auto
  qed
  have par: "\<exists>st' res new.
       run_handler w sched (integration_matrix flt par cof) st = (st', res) \<and>
       trace st' = trace st @ new \<and>
       mset (branch_aliases new) = mset (map matrix_alias ?combos) \<and>
       (\<forall>answer. res = Inr answer \<longrightarrow>
          (\<exists>rep. answer = Json rep \<and> map combination (mx_results rep) = ?combos))"
    if p: "flag par"
  proof -
    from promise_all_runCombination [of w sched ?combos ?st1]
    obtain st' res new where
      pa: "promise_all w sched (map runCombination ?combos) ?st1 = (st', res)"
      and t: "trace st' = trace ?st1 @ new"
      and a: "mset (branch_aliases new) = mset (map matrix_alias ?combos)"
      and c: "\<forall>vs. res = Inr vs \<longrightarrow> map combination vs = ?combos"
      by blast
    have t': "trace st' = trace st @ (EvReadManifest # new)" using t by simp
    have a': "mset (branch_aliases (EvReadManifest # new)) = mset (map matrix_alias ?combos)"
      using a by simp
    show ?thesis
    proof (cases res)
      case (Inl e)
      then have "run_handler w sched (integration_matrix flt par cof) st = (st', Inl e)"
        using p pa unfolding eq by (simp add: run_handler_def)
      with t' a' show ?thesis by blast
    next
      case (Inr vs)
      then have "run_handler w sched (integration_matrix flt par cof) st =
          (st', Inr (matrix_report mx ?combos vs))"
        using p pa unfolding eq by (simp add: run_handler_def)
      moreover have "map combination vs = ?combos" using c Inr by simp
      ultimately show ?thesis
        using t' a'
        by (intro exI [of _ st'] exI [of _ "Inr (matrix_report mx ?combos vs)"]
            exI [of _ "EvReadManifest # new"]) (simp add: matrix_report_def)
    qed
  qed
  from seq par show ?thesis by blast
qed


lemma matrix_sequential_run:
  "run_handler tests_fail [] (integration_matrix None None None)
     (fresh\<lparr>disk_manifest := Some matrix_manifest\<rparr>) =
   (fresh\<lparr>disk_manifest := Some matrix_manifest,
          heap_manifest := Some (matrix_manifest
             \<lparr>services := [(''postgres'', mk_service ''postgres@14'' None)]\<rparr>),
          trace :=
            [EvReadManifest,
             EvExec ViaExecVers ''vers branch --alias matrix-postgres14''
               (Resolved \<lparr>stdout = [], stderr = []\<rparr>),
             EvExec ViaExecVers ''vers checkout matrix-postgres14''
               (Resolved \<lparr>stdout = [], stderr = []\<rparr>),
             EvExec ViaExecVers ''vers service restart --all''
               (Resolved \<lparr>stdout = [], stderr = []\<rparr>),
             EvExec Direct ''npm test'' (Resolved \<lparr>stdout = [], stderr = ''1 failing''\<rparr>)]\<rparr>,
    Inr (Json \<lparr>rep_matrix = [(''postgres'', [Num 14, Num 16])],
                total_combinations = 2, mx_passed = 0, mx_failed = 1,
                mx_results =
                  [\<lparr>combination = [(''postgres'', Num 14)],
                    mr_branch = Some ''matrix-postgres14'', mr_status = Failed,
                    mr_output = Some ''1 failing'', mr_error = None\<rparr>]\<rparr>))"
  by (simp add: matrix_eval)

theorem matrix_short_circuit_witness:
  "\<exists>st' rep new.
     run_handler tests_fail [] (integration_matrix None None None)
       (fresh\<lparr>disk_manifest := Some matrix_manifest\<rparr>) = (st', Inr (Json rep)) \<and>
     trace st' = new \<and>
     map combination (mx_results rep) = [[(''postgres'', Num 14)]] \<and>
     branch_aliases new = map (\<lambda>x. matrix_alias (combination x)) (mx_results rep)"
proof -
  have h1: "disk_manifest (fresh\<lparr>disk_manifest := Some matrix_manifest\<rparr>) =
              Some matrix_manifest"
    by simp
  have h2: "matrix matrix_manifest = Some [(''postgres'', [Num 14, Num 16])]"
    by (simp add: matrix_manifest_def)
  have np: "\<not> flag None" by (simp add: flag_def)
  from matrix_short_circuit [OF h1 h2, of None tests_fail "[]" None None] np
  obtain st' rep new where
    r: "run_handler tests_fail [] (integration_matrix None None None)
          (fresh\<lparr>disk_manifest := Some matrix_manifest\<rparr>) = (st', Inr (Json rep))"
    and t: "trace st' = trace (fresh\<lparr>disk_manifest := Some matrix_manifest\<rparr>) @ new"
    and a: "branch_aliases new = map (\<lambda>x. matrix_alias (combination x)) (mx_results rep)"
    by blast
  from r have "map combination (mx_results rep) = [[(''postgres'', Num 14)]]"
    unfolding matrix_sequential_run by auto
  with r t a show ?thesis
    by (intro exI [of _ st'] exI [of _ rep] exI [of _ new]) (simp add: fresh_def)
qed

section \<open>The manifest during a run\<close>

lemma confined_bind:
  "confined R p \<Longrightarrow> (\<And>v. confined R (f v)) \<Longrightarrow> confined R (bind p f)"
  by (induction p) auto

lemma confined_try_catch:
  "confined R p \<Longrightarrow> (\<And>e. confined R (h e)) \<Longrightarrow> confined R (try_catch p h)"
  by (induction p) auto

lemma holds_emit [simp]: "holds R m (emit e st) = holds R m st"
  by (simp add: holds_def emit_def)

lemma holds_mutate:
  "transp R \<Longrightarrow> \<forall>x. R x (f x) \<Longrightarrow> holds R m st \<Longrightarrow>
   holds R m (st\<lparr>heap_manifest := map_option f (heap_manifest st)\<rparr>)"
  by (auto simp: holds_def dest: transpD)

lemma holds_dirs [simp]: "holds R m (st\<lparr>dirs := d\<rparr>) = holds R m st"
  by (simp add: holds_def)

lemma holds_files [simp]: "holds R m (st\<lparr>files := f\<rparr>) = holds R m st"
  by (simp add: holds_def)

lemma confined_step:
  assumes "transp R" and "confined R p" and "holds R m st"
  shows "confined R (fst (step w p st)) \<and> holds R m (snd (step w p st))"
proof (cases p)
  case (Mutate f q)
  with assms(2,3) show ?thesis
    by (simp add: holds_mutate [OF assms(1)])
qed (use assms(2,3) in \<open>simp_all add: Let_def\<close>)

lemma confined_run:
  assumes "transp R"
  shows "confined R p \<Longrightarrow> holds R m st \<Longrightarrow> holds R m (fst (run w p st))"
proof (induction p arbitrary: st)
  case (Exec og c k)
  show ?case
    using Exec.IH [OF rangeI, of "respond w (trace st) c"
        "emit (EvExec og c (respond w (trace st) c)) st"] Exec.prems
    by (simp add: Let_def)
next
  case (Now k)
  show ?case
    using Now.IH [OF rangeI, of "clock w (trace st)" "emit (EvNow (clock w (trace st))) st"]
      Now.prems
    by (simp add: Let_def)
next
  case (Mkdir d p)
  show ?case
    using Mkdir.IH [of "emit (EvMkdir d) (st\<lparr>dirs := insert d (dirs st)\<rparr>)"] Mkdir.prems
    by simp
next
  case (WriteFile f c p)
  show ?case
    using WriteFile.IH [of "emit (EvWriteFile f) (st\<lparr>files := (files st)(f \<mapsto> c)\<rparr>)"]
      WriteFile.prems
    by simp
next
  case (Mutate f p)
  show ?case
    using Mutate.IH [of "st\<lparr>heap_manifest := map_option f (heap_manifest st)\<rparr>"] Mutate.prems
    by (simp add: holds_mutate [OF assms])
qed simp_all

lemma confined_interleave:
  assumes "transp R"
  shows "list_all (confined R) ps \<Longrightarrow> holds R m st \<Longrightarrow>
     interleave w sched ps st err = (ps', st', err') \<Longrightarrow>
     list_all (confined R) ps' \<and> holds R m st'"
proof (induction sched arbitrary: ps st err)
  case Nil
  then show ?case by simp
next
  case (Cons i sched)
  show ?case
  proof (cases "ps = []")
    case True
    with Cons.prems show ?thesis by simp
  next
    case False
    let ?j = "i mod length ps"
    have j: "?j < length ps" using False by simp
    obtain p1 st1 where stp: "step w (ps ! ?j) st = (p1, st1)"
      by (cases "step w (ps ! ?j) st")
    have "confined R (ps ! ?j)"
      using Cons.prems(1) j by (simp add: list_all_length)
    from confined_step [OF assms this Cons.prems(2), of w] stp
    have c1: "confined R p1" and h1: "holds R m st1" by simp_all
    have l1: "list_all (confined R) (ps[?j := p1])"
      using Cons.prems(1) c1 set_update_subset_insert [of ps ?j p1]
      by (auto simp: list_all_iff)
    have "interleave w sched (ps[?j := p1]) st1 (first_error err (thrown p1)) = (ps', st', err')"
      using Cons.prems(3) False stp by (simp add: Let_def)
    from Cons.IH [OF l1 h1 this] show ?thesis .
  qed
qed

lemma confined_drain:
  assumes "transp R"
  shows "list_all (confined R) ps \<Longrightarrow> holds R m st \<Longrightarrow>
     drain w ps st err = (rs, st', err') \<Longrightarrow> holds R m st'"
proof (induction ps arbitrary: st err rs st' err')
  case Nil
  then show ?case by simp
next
  case (Cons p ps)
  obtain st1 r where run: "run w p st = (st1, r)" by (cases "run w p st")
  let ?err1 = "first_error err (case r of Inl e \<Rightarrow> Some e | Inr _ \<Rightarrow> None)"
  obtain rs1 st2 err2 where d: "drain w ps st1 ?err1 = (rs1, st2, err2)"
    by (cases "drain w ps st1 ?err1") auto
  from Cons.prems(3) run d have eq: "st' = st2" by simp
  have "holds R m st1"
    using confined_run [OF assms, of p m st w] Cons.prems(1,2) run by simp
  from Cons.IH [OF _ this d] Cons.prems(1) eq show ?case by simp
qed

lemma confined_promise_all:
  assumes "transp R" and "list_all (confined R) tasks" and "holds R m st"
  shows "holds R m (fst (promise_all w sched tasks st))"
proof -
  let ?err0 = "fold (\<lambda>p err. first_error err (thrown p)) tasks None"
  obtain ps st1 err1 where i: "interleave w sched tasks st ?err0 = (ps, st1, err1)"
    by (cases "interleave w sched tasks st ?err0") auto
  obtain rs st2 err2 where d: "drain w ps st1 err1 = (rs, st2, err2)"
    by (cases "drain w ps st1 err1") auto
  from confined_interleave [OF assms(1,2,3) i]
  have "list_all (confined R) ps" and "holds R m st1" by simp_all
  from confined_drain [OF assms(1) this d] have "holds R m st2" .
  with i d show ?thesis by (simp add: promise_all_def)
qed


subsection \<open>Assignments to service templates\<close>

lemma templates_only_refl: "templates_only m m"
  by (auto simp: templates_only_def list_all2_same)

lemma template_update_twice:
  "y = x\<lparr>template := ty\<rparr> \<Longrightarrow> z = y\<lparr>template := tz\<rparr> \<Longrightarrow> z = x\<lparr>template := tz\<rparr>"
  by simp

lemma services_update_twice:
  "b = a\<lparr>services := sb\<rparr> \<Longrightarrow> c = b\<lparr>services := sc\<rparr> \<Longrightarrow> c = a\<lparr>services := sc\<rparr>"
  by simp

lemma templates_only_trans:
  assumes "templates_only a b" and "templates_only b c"
  shows "templates_only a c"
proof -
  let ?P = "\<lambda>(k, s) (k', s'). k' = (k :: string) \<and> s' = s\<lparr>template := template s'\<rparr>"
  from assms have ab: "list_all2 ?P (services a) (services b)"
    and bc: "list_all2 ?P (services b) (services c)"
    and ma: "b = a\<lparr>services := services b\<rparr>" and mb: "c = b\<lparr>services := services c\<rparr>"
    by (simp_all add: templates_only_def)
  have "list_all2 ?P (services a) (services c)"
  proof (rule list_all2_trans [OF _ ab bc])
    fix x y z :: "string \<times> ServiceConfig"
    assume "?P x y" and "?P y z"
    then show "?P x z"
      by (cases x; cases y; cases z) (auto intro: template_update_twice)
  qed
  moreover have "c = a\<lparr>services := services c\<rparr>"
    using ma mb by (rule services_update_twice)
  ultimately show ?thesis by (simp add: templates_only_def)
qed

lemma update_template_rel:
  "map_of xs k = Some s \<Longrightarrow>
   list_all2 (\<lambda>(k, s) (k', s'). k' = k \<and> s' = s\<lparr>template := template s'\<rparr>)
     xs (AList.update k (s\<lparr>template := t\<rparr>) xs)"
proof (induction xs)
  case Nil
  then show ?case by simp
next
  case (Cons x xs)
  then show ?case
    by (cases x) (auto simp: list_all2_same)
qed

lemma set_version_templates_only: "templates_only m (set_version service ver m)"
proof (cases "map_of (services m) service")
  case None
  then show ?thesis by (simp add: set_version_def templates_only_refl)
next
  case (Some cfg)
  then show ?thesis
    using update_template_rel [OF Some]
    by (simp add: set_version_def templates_only_def Let_def)
qed

lemma fold_set_version_templates_only:
  "templates_only m (fold (\<lambda>(service, ver) m. set_version service ver m) cmb m)"
proof (induction cmb arbitrary: m)
  case Nil
  then show ?case by (simp add: templates_only_refl)
next
  case (Cons x cmb)
  obtain service ver where x: "x = (service, ver)" by (cases x)
  from templates_only_trans [OF set_version_templates_only Cons.IH]
  show ?case by (simp add: x)
qed

lemma transp_templates_only: "transp templates_only"
  by (rule transpI) (rule templates_only_trans)

lemma confined_runCombination: "confined templates_only (runCombination cmb)"
  by (simp add: runCombination_def execVers_def execAsync_def Let_def
      fold_set_version_templates_only split: resp.splits)

lemma confined_matrix_loop: "confined templates_only (matrix_loop cont combos rs)"
proof (induction combos arbitrary: rs)
  case Nil
  then show ?case by simp
next
  case (Cons cmb combos)
  show ?case
    unfolding matrix_loop.simps
    by (intro confined_bind confined_try_catch confined_runCombination)
       (auto simp: Cons.IH)
qed


lemma confined_run_hook: "confined R (run_hook hk)"
  by (simp add: run_hook_def execAsync_def split: option.splits resp.splits)

lemma confined_timed_test: "confined R (timed_test nm bn cmd)"
  by (simp add: timed_test_def execAsync_def split: resp.splits)

lemma confined_run_scenario: "confined R (run_scenario prefix nm cfg br rs)"
  by (simp add: run_scenario_def execVers_def Let_def confined_bind confined_run_hook
      confined_timed_test)

lemma confined_run_scenarios: "confined R (run_scenarios prefix nm cfg bs rs)"
  by (induction bs arbitrary: rs) (simp_all add: confined_bind confined_run_scenario)

lemma confined_runTest: "confined R (runTest prefix nm cfg)"
  by (auto simp: runTest_def execVers_def Let_def confined_timed_test confined_run_scenario
      confined_run_scenarios split: option.splits list.splits intro!: confined_bind)

lemma confined_run_suites: "confined R (run_suites prefix suites rs)"
proof (induction suites arbitrary: rs)
  case Nil
  then show ?case by simp
next
  case (Cons s suites)
  then show ?case
    by (cases s) (simp add: confined_bind confined_runTest)
qed

lemma run_handler_seq:
  "fst (run_handler w sched (bind p (\<lambda>v. Return (Done (f v)))) st) = fst (run w p st)"
  by (simp add: run_handler_def run_bind split: prod.splits sum.splits)

lemma run_handler_par:
  "fst (run_handler w sched (Return (All tasks (\<lambda>vs. Return (g vs)))) st) =
     fst (promise_all w sched tasks st)"
  by (simp add: run_handler_def split: prod.splits sum.splits)

lemma integration_test_unfold:
  assumes "disk_manifest st = Some m" and "tests m = Some ts"
  shows "run_handler w sched (integration_test suite_arg par branch_prefix) st =
     run_handler w sched
       (if flag par
        then Return (All (map (\<lambda>(nm, cfg). runTest (or_opt_str branch_prefix ''test'') nm cfg)
                            (suitesToRun suite_arg ts))
               (\<lambda>allResults. Return (test_report (concat allResults))))
        else bind (run_suites (or_opt_str branch_prefix ''test'') (suitesToRun suite_arg ts) [])
               (\<lambda>results. Return (Done (test_report results))))
       (st\<lparr>heap_manifest := Some m,
           trace := trace st @
             [EvReadManifest, EvNow (clock w (trace st @ [EvReadManifest])),
              EvExec ViaExecVers
                (''vers commit --tag \"'' @ or_opt_str branch_prefix ''test'' @ ''-baseline-'' @
                   show_nat (clock w (trace st @ [EvReadManifest])) @ ''\"'')
                (respond w
                   (trace st @ [EvReadManifest, EvNow (clock w (trace st @ [EvReadManifest]))])
                   (''vers commit --tag \"'' @ or_opt_str branch_prefix ''test'' @
                      ''-baseline-'' @ show_nat (clock w (trace st @ [EvReadManifest])) @
                      ''\"''))]\<rparr>)"
  using assms
  by (simp add: integration_test_def run_handler_ReadManifest run_handler_Now
      run_handler_Exec execVers_def emit_def Let_def)

lemma integration_test_holds:
  assumes "disk_manifest st = Some m"
  shows "holds (\<lambda>a b. b = a) m
           (fst (run_handler w sched (integration_test suite_arg par branch_prefix) st))"
proof (cases "tests m")
  case None
  with assms show ?thesis
    by (simp add: integration_test_def run_handler_def holds_def emit_def)
next
  case (Some ts)
  have tr: "transp (\<lambda>a b :: IntegrationManifest. b = a)"
    by (rule transpI) simp
  let ?st3 = "st\<lparr>heap_manifest := Some m,
           trace := trace st @
             [EvReadManifest, EvNow (clock w (trace st @ [EvReadManifest])),
              EvExec ViaExecVers
                (''vers commit --tag \"'' @ or_opt_str branch_prefix ''test'' @ ''-baseline-'' @
                   show_nat (clock w (trace st @ [EvReadManifest])) @ ''\"'')
                (respond w
                   (trace st @ [EvReadManifest, EvNow (clock w (trace st @ [EvReadManifest]))])
                   (''vers commit --tag \"'' @ or_opt_str branch_prefix ''test'' @
                      ''-baseline-'' @ show_nat (clock w (trace st @ [EvReadManifest])) @
                      ''\"''))]\<rparr>"
  have h: "holds (\<lambda>a b. b = a) m ?st3"
    using assms by (simp add: holds_def)
  show ?thesis
  proof (cases "flag par")
    case True
    have "list_all (confined (\<lambda>a b. b = a))
            (map (\<lambda>(nm, cfg). runTest (or_opt_str branch_prefix ''test'') nm cfg)
               (suitesToRun suite_arg ts))"
      by (auto simp: list_all_iff confined_runTest)
    from confined_promise_all [OF tr this h, of w sched] True show ?thesis
      unfolding integration_test_unfold [OF assms Some] by (simp add: run_handler_par)
  next
    case False
    from confined_run [OF tr confined_run_suites h] False show ?thesis
      unfolding integration_test_unfold [OF assms Some] by (simp add: run_handler_seq)
  qed
qed

lemma integration_matrix_holds:
  assumes "disk_manifest st = Some m"
  shows "holds templates_only m
           (fst (run_handler w sched (integration_matrix flt par cof) st))"
proof (cases "matrix m")
  case None
  with assms show ?thesis
    by (simp add: integration_matrix_def run_handler_def holds_def emit_def
        templates_only_refl)
next
  case (Some mx)
  let ?st1 = "st\<lparr>heap_manifest := Some m, trace := trace st @ [EvReadManifest]\<rparr>"
  have h: "holds templates_only m ?st1"
    using assms by (simp add: holds_def templates_only_refl)
  show ?thesis
  proof (cases "flag par")
    case True
    have "list_all (confined templates_only)
            (map runCombination (snd (generate mx flt 0 ([], []))))"
      by (auto simp: list_all_iff confined_runCombination)
    from confined_promise_all [OF transp_templates_only this h, of w sched] True
    show ?thesis
      unfolding integration_matrix_unfold [OF assms Some] by (simp add: run_handler_par)
  next
    case False
    from confined_run [OF transp_templates_only confined_matrix_loop h] False
    show ?thesis
      unfolding integration_matrix_unfold [OF assms Some] by (simp add: run_handler_seq)
  qed
qed


text \<open>
  C4 fails on the code. \<open>runCombination\<close> assigns to \<open>svcConfig.template\<close> of the
  manifest object the handler read: after a matrix run over \<open>postgres\<close> versions, the
  service that was read as \<open>postgres@15\<close> is \<open>postgres@14\<close> in the handler's manifest.
\<close>

theorem manifest_template_mutated_counterexample:
  "map (\<lambda>(k, s). (k, template s)) (services matrix_manifest) =
     [(''postgres'', ''postgres@15'')] \<and>
   (\<exists>m'. heap_manifest (fst (run_handler tests_fail [] (integration_matrix None None None)
             (fresh\<lparr>disk_manifest := Some matrix_manifest\<rparr>))) = Some m' \<and>
         map (\<lambda>(k, s). (k, template s)) (services m') = [(''postgres'', ''postgres@14'')])"
  by (simp add: matrix_sequential_run) (simp add: matrix_manifest_def mk_service_def)

text \<open>
  C4, amended. For every run of \<open>integration_test\<close>, in either mode, the manifest file
  is not written and the manifest the handler read is the same when the run ends. For
  every run of \<open>integration_matrix\<close>, in either mode, the manifest file is not written,
  and the manifest the handler holds when the run ends differs from the one it read at
  most in the \<open>template\<close> fields of its services.
\<close>

theorem manifest_changes_confined_to_templates:
  assumes "disk_manifest st = Some m"
  shows "disk_manifest
           (fst (run_handler w sched (integration_test suite_arg par branch_prefix) st)) =
           Some m \<and>
         heap_manifest
           (fst (run_handler w sched (integration_test suite_arg par branch_prefix) st)) =
           Some m \<and>
         disk_manifest (fst (run_handler w sched (integration_matrix flt par cof) st)) =
           Some m \<and>
         (\<exists>m'. heap_manifest (fst (run_handler w sched (integration_matrix flt par cof) st)) =
                 Some m' \<and> templates_only m m')"
  using integration_test_holds [OF assms, of w sched suite_arg par branch_prefix]
    integration_matrix_holds [OF assms, of w sched flt par cof]
  by (simp add: holds_def)


theorem manifest_changes_confined_to_templates_witness:
  "disk_manifest (fst (run_handler tests_fail [] (integration_test None None None)
      (fresh\<lparr>disk_manifest := Some matrix_manifest\<rparr>))) = Some matrix_manifest \<and>
   heap_manifest (fst (run_handler tests_fail [] (integration_test None None None)
      (fresh\<lparr>disk_manifest := Some matrix_manifest\<rparr>))) = Some matrix_manifest \<and>
   disk_manifest (fst (run_handler tests_fail [] (integration_matrix None None None)
      (fresh\<lparr>disk_manifest := Some matrix_manifest\<rparr>))) = Some matrix_manifest \<and>
   (\<exists>m'. heap_manifest (fst (run_handler tests_fail [] (integration_matrix None None None)
      (fresh\<lparr>disk_manifest := Some matrix_manifest\<rparr>))) = Some m' \<and>
      templates_only matrix_manifest m')"
  using manifest_changes_confined_to_templates
          [where st = "fresh\<lparr>disk_manifest := Some matrix_manifest\<rparr>"
             and m = matrix_manifest and w = tests_fail and sched = "[]"
             and suite_arg = None and par = None and branch_prefix = None
             and flt = None and cof = None]
  by simp

end
